theory Spec2Isabelle
  imports Main
begin

section \<open>The puzzle-state contract\<close>

text \<open>
  \<^verbatim>\<open>puzzle_tools.py\<close> imports the abstract class \<^verbatim>\<open>Puzzle\<close> and uses four of its
  methods: \<^verbatim>\<open>is_solved()\<close>, \<^verbatim>\<open>extensions()\<close>, \<^verbatim>\<open>fail_fast()\<close> and \<^verbatim>\<open>__str__()\<close>.
  The class itself is a parameter of the search: a record of the four methods over a type
  \<open>'s\<close> of immutable puzzle states. The methods are pure functions of the state, and
  \<^verbatim>\<open>==\<close> on states is equality of values (as \<^verbatim>\<open>SudokuPuzzle.__eq__\<close> compares all fields).
\<close>

record 's Puzzle =
  is_solved :: "'s \<Rightarrow> bool"
  extensions :: "'s \<Rightarrow> 's list"
  fail_fast :: "'s \<Rightarrow> bool"
  str :: "'s \<Rightarrow> string"

datatype py_error = AttributeError | IndexError | UnboundLocalError | ValueError | ZeroDivisionError

section \<open>PuzzleNode\<close>

datatype 's PuzzleNode =
  PuzzleNode (puzzle: "'s option") (children: "'s PuzzleNode list") (parent: "'s PuzzleNode option")

text \<open>
  \<^verbatim>\<open>__init__(self, puzzle=None, children=None, parent=None)\<close>: an absent children
  argument gives the empty list, a given one is copied.
\<close>

definition PuzzleNode_init ::
  "'s option \<Rightarrow> 's PuzzleNode list option \<Rightarrow> 's PuzzleNode option \<Rightarrow> 's PuzzleNode" where
  "PuzzleNode_init p cs par = PuzzleNode p (case cs of None \<Rightarrow> [] | Some l \<Rightarrow> l) par"

text \<open>
  \<^verbatim>\<open>__eq__\<close> between two nodes: equal puzzles, and every child of each among the children
  of the other (\<^verbatim>\<open>x in xs\<close> is \<^verbatim>\<open>any(x == e for e in xs)\<close>, with \<^verbatim>\<open>==\<close> this same
  method). The parent is not compared.
\<close>

function node_eq :: "'s PuzzleNode \<Rightarrow> 's PuzzleNode \<Rightarrow> bool" where
  "node_eq (PuzzleNode p cs par) (PuzzleNode p' cs' par') =
     (p = p' \<and>
      list_all (\<lambda>x. list_ex (\<lambda>e. node_eq x e) cs) cs' \<and>
      list_all (\<lambda>x. list_ex (\<lambda>e. node_eq x e) cs') cs)"
  by pat_completeness auto
termination
proof (relation "measure (\<lambda>(a, b). size a + size b)")
  show "wf (measure (\<lambda>(a :: 's PuzzleNode, b :: 's PuzzleNode). size a + size b))" by simp
next
  fix p :: "'s option" and cs par p' cs' par' and x xa :: "'s PuzzleNode"
  assume "x \<in> set cs'" "xa \<in> set cs"
  then have "size x < Suc (size_list size cs')" "size xa < Suc (size_list size cs)"
    by (simp_all add: size_list_estimation' less_Suc_eq_le)
  then show "((x, xa), PuzzleNode p cs par, PuzzleNode p' cs' par')
       \<in> measure (\<lambda>(a, b). size a + size b)" by simp
next
  fix p :: "'s option" and cs par p' cs' par' and x xa :: "'s PuzzleNode"
  assume "x \<in> set cs" "xa \<in> set cs'"
  then have "size x < Suc (size_list size cs)" "size xa < Suc (size_list size cs')"
    by (simp_all add: size_list_estimation' less_Suc_eq_le)
  then show "((x, xa), PuzzleNode p cs par, PuzzleNode p' cs' par')
       \<in> measure (\<lambda>(a, b). size a + size b)" by simp
qed

text \<open>
  \<^verbatim>\<open>__eq__(self, other)\<close> with \<^verbatim>\<open>other\<close> of any type: \<^verbatim>\<open>type(self) == type(other)\<close> is
  tested first, so an object that is not a \<^verbatim>\<open>PuzzleNode\<close> (\<open>Inr\<close>) gives \<^verbatim>\<open>False\<close>.
\<close>

definition PuzzleNode_eq :: "'s PuzzleNode \<Rightarrow> 's PuzzleNode + 'a \<Rightarrow> bool" where
  "PuzzleNode_eq self other = (case other of Inl n \<Rightarrow> node_eq self n | Inr _ \<Rightarrow> False)"

section \<open>The two search entry points\<close>

text \<open>
  Line 32 of \<^verbatim>\<open>depth_first_solve\<close> compares the bound method \<^verbatim>\<open>ext.extensions\<close> (it is
  not called) with the list \<^verbatim>\<open>[]\<close>. A method object is never equal to a list.
\<close>

definition bound_method_eq_list :: "('s \<Rightarrow> 's list) \<Rightarrow> 's list \<Rightarrow> bool" where
  "bound_method_eq_list m l = False"

text \<open>
  The \<^verbatim>\<open>for ext in item.puzzle.extensions()\<close> loop of \<^verbatim>\<open>depth_first_solve\<close> (lines 28-37).
  \<open>Inl\<close> is the \<^verbatim>\<open>return PuzzleNode(ext)\<close> of line 30; \<open>Inr\<close> is the end of the loop, with
  the visited set and the work list as they then are.
\<close>

fun dfs_for ::
  "'s Puzzle \<Rightarrow> 's list \<Rightarrow> string set \<Rightarrow> 's PuzzleNode list
     \<Rightarrow> 's PuzzleNode + (string set \<times> 's PuzzleNode list)" where
  "dfs_for ops [] seen new_puzzle = Inr (seen, new_puzzle)"
| "dfs_for ops (ext # rest) seen new_puzzle =
     (if is_solved ops ext then Inl (PuzzleNode_init (Some ext) None None)
      else if fail_fast ops ext \<or> str ops ext \<in> seen
              \<or> bound_method_eq_list (extensions ops) [] then dfs_for ops rest seen new_puzzle
      else (let new_node = PuzzleNode_init (Some ext) None None
            in dfs_for ops rest (insert (str ops ext) seen) (new_puzzle @ [new_node])))"

text \<open>
  The \<^verbatim>\<open>while len(new_puzzle) > 0\<close> loop of \<^verbatim>\<open>depth_first_solve\<close> (lines 26-39);
  \<^verbatim>\<open>new_puzzle.pop()\<close> takes the last element. The loop need not end, so the function is
  partial: \<open>None\<close> is a run that never returns, \<open>Some (Inr r)\<close> a run that returns \<open>r\<close>
  (\<open>r = None\<close> is Python's \<^verbatim>\<open>None\<close>), \<open>Some (Inl e)\<close> a run that raises \<open>e\<close>
  (\<^verbatim>\<open>item.puzzle.extensions()\<close> on a node whose puzzle is \<^verbatim>\<open>None\<close>).
\<close>

partial_function (option) dfs_while ::
  "'s Puzzle \<Rightarrow> string set \<Rightarrow> 's PuzzleNode list \<Rightarrow> (py_error + 's PuzzleNode option) option" where
  "dfs_while ops seen new_puzzle =
     (if length new_puzzle > 0 then
        (let item = last new_puzzle; popped = butlast new_puzzle in
         case puzzle item of
           None \<Rightarrow> Some (Inl AttributeError)
         | Some p \<Rightarrow>
             (case dfs_for ops (extensions ops p) seen popped of
                Inl n \<Rightarrow> Some (Inr (Some n))
              | Inr (seen', new_puzzle') \<Rightarrow> dfs_while ops seen' new_puzzle'))
      else Some (Inr None))"

declare dfs_while.simps [code]

definition depth_first_solve ::
  "'s Puzzle \<Rightarrow> 's \<Rightarrow> (py_error + 's PuzzleNode option) option" where
  "depth_first_solve ops p = dfs_while ops {} [PuzzleNode_init (Some p) None None]"

text \<open>
  The \<^verbatim>\<open>for\<close> loop of \<^verbatim>\<open>breadth_first_solve\<close> (lines 54-63): here line 58 calls
  \<^verbatim>\<open>ext.extensions()\<close>.
\<close>

fun bfs_for ::
  "'s Puzzle \<Rightarrow> 's list \<Rightarrow> string set \<Rightarrow> 's PuzzleNode list
     \<Rightarrow> 's PuzzleNode + (string set \<times> 's PuzzleNode list)" where
  "bfs_for ops [] seen new_puzzle = Inr (seen, new_puzzle)"
| "bfs_for ops (ext # rest) seen new_puzzle =
     (if is_solved ops ext then Inl (PuzzleNode_init (Some ext) None None)
      else if fail_fast ops ext \<or> str ops ext \<in> seen
              \<or> extensions ops ext = [] then bfs_for ops rest seen new_puzzle
      else (let new_node = PuzzleNode_init (Some ext) None None
            in bfs_for ops rest (insert (str ops ext) seen) (new_puzzle @ [new_node])))"

text \<open>
  The \<^verbatim>\<open>while\<close> loop of \<^verbatim>\<open>breadth_first_solve\<close> (lines 52-64); \<^verbatim>\<open>new_puzzle.pop(0)\<close>
  takes the first element.
\<close>

partial_function (option) bfs_while ::
  "'s Puzzle \<Rightarrow> string set \<Rightarrow> 's PuzzleNode list \<Rightarrow> (py_error + 's PuzzleNode option) option" where
  "bfs_while ops seen new_puzzle =
     (if length new_puzzle > 0 then
        (let item = hd new_puzzle; popped = tl new_puzzle in
         case puzzle item of
           None \<Rightarrow> Some (Inl AttributeError)
         | Some p \<Rightarrow>
             (case bfs_for ops (extensions ops p) seen popped of
                Inl n \<Rightarrow> Some (Inr (Some n))
              | Inr (seen', new_puzzle') \<Rightarrow> bfs_while ops seen' new_puzzle'))
      else Some (Inr None))"

declare bfs_while.simps [code]

definition breadth_first_solve ::
  "'s Puzzle \<Rightarrow> 's \<Rightarrow> (py_error + 's PuzzleNode option) option" where
  "breadth_first_solve ops p = bfs_while ops {} [PuzzleNode_init (Some p) None None]"

subsection \<open>The nodes popped by a run\<close>

text \<open>
  The nodes that the first \<open>k\<close> iterations of the \<^verbatim>\<open>while\<close> loop of \<^verbatim>\<open>depth_first_solve\<close>
  pop from the work list and expand, in order: the loop of \<open>dfs_while\<close> with the popped
  \<^verbatim>\<open>item\<close> recorded at every iteration.
\<close>

fun dfs_examined ::
  "nat \<Rightarrow> 's Puzzle \<Rightarrow> string set \<Rightarrow> 's PuzzleNode list \<Rightarrow> 's PuzzleNode list" where
  "dfs_examined 0 ops seen new_puzzle = []"
| "dfs_examined (Suc k) ops seen new_puzzle =
     (if length new_puzzle > 0 then
        (let item = last new_puzzle; popped = butlast new_puzzle in
         item # (case puzzle item of
                   None \<Rightarrow> []
                 | Some p \<Rightarrow>
                     (case dfs_for ops (extensions ops p) seen popped of
                        Inl n \<Rightarrow> []
                      | Inr (seen', new_puzzle') \<Rightarrow> dfs_examined k ops seen' new_puzzle')))
      else [])"

text \<open>
  The same for \<^verbatim>\<open>breadth_first_solve\<close>.
\<close>

fun bfs_examined ::
  "nat \<Rightarrow> 's Puzzle \<Rightarrow> string set \<Rightarrow> 's PuzzleNode list \<Rightarrow> 's PuzzleNode list" where
  "bfs_examined 0 ops seen new_puzzle = []"
| "bfs_examined (Suc k) ops seen new_puzzle =
     (if length new_puzzle > 0 then
        (let item = hd new_puzzle; popped = tl new_puzzle in
         item # (case puzzle item of
                   None \<Rightarrow> []
                 | Some p \<Rightarrow>
                     (case bfs_for ops (extensions ops p) seen popped of
                        Inl n \<Rightarrow> []
                      | Inr (seen', new_puzzle') \<Rightarrow> bfs_examined k ops seen' new_puzzle')))
      else [])"

section \<open>SudokuPuzzle.extensions\<close>

text \<open>
  \<^verbatim>\<open>SudokuPuzzle\<close> (\<^verbatim>\<open>sudoku_puzzle.py\<close>): the attributes \<^verbatim>\<open>_n\<close>, \<^verbatim>\<open>_symbols\<close> and
  \<^verbatim>\<open>_symbol_set\<close>. A symbol is a string, the empty cell is \<^verbatim>\<open>"*"\<close>. The precondition of
  \<^verbatim>\<open>__init__\<close> has \<open>n > 0\<close>, so \<open>n\<close> is a natural number here.
\<close>

record SudokuPuzzle =
  sudoku_n :: nat
  sudoku_symbols :: "string list list"
  sudoku_symbol_set :: "string set"

definition row_set :: "SudokuPuzzle \<Rightarrow> nat \<Rightarrow> py_error + string set" where
  "row_set self r =
     (if r < length (sudoku_symbols self) then Inr (set (sudoku_symbols self ! r)) else Inl IndexError)"

definition column_set :: "SudokuPuzzle \<Rightarrow> nat \<Rightarrow> py_error + string set" where
  "column_set self c =
     (if list_all (\<lambda>row. c < length row) (sudoku_symbols self)
      then Inr (set (map (\<lambda>row. row ! c) (sudoku_symbols self))) else Inl IndexError)"

text \<open>
  Sequencing of two steps that may raise: an exception of the first step is the
  exception of the whole.
\<close>

definition raising :: "py_error + 'a \<Rightarrow> ('a \<Rightarrow> py_error + 'b) \<Rightarrow> py_error + 'b" where
  "raising m f = (case m of Inl err \<Rightarrow> Inl err | Inr x \<Rightarrow> f x)"

text \<open>
  \<^verbatim>\<open>_subsquare_set\<close> (lines 231-241). \<^verbatim>\<open>round(n ** (1 / 2))\<close> goes through a floating-point
  number, which is not modelled: its result (or the exception it raises) is the parameter
  \<open>root\<close>.
\<close>

definition subsquare_set ::
  "(nat \<Rightarrow> py_error + nat) \<Rightarrow> SudokuPuzzle \<Rightarrow> nat \<Rightarrow> nat \<Rightarrow> py_error + string set" where
  "subsquare_set root self r c =
     (let n = sudoku_n self; symbols = sudoku_symbols self in
      raising (root n) (\<lambda>ss.
      if ss = 0 then Inl ZeroDivisionError
      else
        (let ul_row = (r div ss) * ss; ul_col = (c div ss) * ss;
             cells = concat (map (\<lambda>i. map (\<lambda>j. (ul_row + i, ul_col + j)) [0..<ss]) [0..<ss])
         in if list_all (\<lambda>(i, j). i < length symbols \<and> j < length (symbols ! i)) cells
            then Inr (set (map (\<lambda>(i, j). symbols ! i ! j) cells)) else Inl IndexError)))"

text \<open>
  Reading a local variable: one that has not been assigned yet (\<open>None\<close>) raises
  \<^verbatim>\<open>UnboundLocalError\<close>.
\<close>

definition read_local :: "'a option \<Rightarrow> py_error + 'a" where
  "read_local v = (case v of None \<Rightarrow> Inl UnboundLocalError | Some x \<Rightarrow> Inr x)"

text \<open>
  The loop \<^verbatim>\<open>while "*" not in symbols[r]: r += 1\<close> of \<^verbatim>\<open>extensions\<close> (lines 169-170),
  from a value of \<open>r\<close>.
\<close>

function star_row :: "string list list \<Rightarrow> nat \<Rightarrow> py_error + nat" where
  "star_row symbols r =
     (if r < length symbols
      then (if ''*'' \<notin> set (symbols ! r) then star_row symbols (r + 1) else Inr r)
      else Inl IndexError)"
  by pat_completeness auto
termination
  by (relation "measure (\<lambda>(symbols, r). length symbols - r)") auto

text \<open>
  \<^verbatim>\<open>SudokuPuzzle.extensions\<close> (lines 165-184). \<open>extensions\<close> assigns to \<open>r\<close> (line 170),
  so \<open>r\<close> is a local variable of the method, and nothing assigns to it before line 169
  reads it: its value there is \<open>None\<close>. The order in which \<^verbatim>\<open>for symbol in allowed_symbols\<close>
  goes through a set is the parameter \<open>order\<close>; \<open>root\<close> is passed on to \<open>subsquare_set\<close>.
\<close>

definition sudoku_extensions ::
  "(nat \<Rightarrow> py_error + nat) \<Rightarrow> (string set \<Rightarrow> string list) \<Rightarrow> SudokuPuzzle
     \<Rightarrow> py_error + SudokuPuzzle list" where
  "sudoku_extensions root order self =
     (let symbols = sudoku_symbols self; symbol_set = sudoku_symbol_set self; n = sudoku_n self;
          r_local = (None :: nat option)
      in if \<not> list_ex (\<lambda>row. ''*'' \<in> set row) symbols then Inr []
         else
           raising (read_local r_local) (\<lambda>r0.
           raising (star_row symbols r0) (\<lambda>r.
           let c = length (takeWhile (\<lambda>x. x \<noteq> ''*'') (symbols ! r)) in
           if c \<ge> length (symbols ! r) then Inl ValueError
           else
             raising (row_set self r) (\<lambda>A.
             raising (column_set self c) (\<lambda>B.
             raising (subsquare_set root self r c) (\<lambda>C.
             let allowed_symbols = sudoku_symbol_set self - (A \<union> B \<union> C) in
             Inr (map (\<lambda>symbol.
                    \<lparr> sudoku_n = n,
                      sudoku_symbols = take r symbols
                        @ [take c (symbols ! r) @ [symbol] @ drop (c + 1) (symbols ! r)]
                        @ drop (r + 1) symbols,
                      sudoku_symbol_set = symbol_set \<rparr>)
                  (order allowed_symbols))))))))"

section \<open>Chains of extensions\<close>

text \<open>
  \<open>ext_chain ops s ts\<close>: the states \<open>ts\<close> are a chain from \<open>s\<close>, each one an element of
  \<^verbatim>\<open>extensions()\<close> of the state before it. \<open>reachable ops s\<close> are the ends of the chains
  from \<open>s\<close> (\<open>s\<close> itself by the empty chain).
\<close>

fun ext_chain :: "'s Puzzle \<Rightarrow> 's \<Rightarrow> 's list \<Rightarrow> bool" where
  "ext_chain ops s [] = True"
| "ext_chain ops s (t # ts) = (t \<in> set (extensions ops s) \<and> ext_chain ops t ts)"

definition reachable :: "'s Puzzle \<Rightarrow> 's \<Rightarrow> 's set" where
  "reachable ops s = {t. \<exists>ts. ext_chain ops s ts \<and> last (s # ts) = t}"

text \<open>
  \<open>good_chain ops s ts\<close>: \<open>ts\<close> is a non-empty chain from \<open>s\<close> that ends in a solved state,
  and no state of \<open>ts\<close> reports \<^verbatim>\<open>fail_fast()\<close> true.
\<close>

definition good_chain :: "'s Puzzle \<Rightarrow> 's \<Rightarrow> 's list \<Rightarrow> bool" where
  "good_chain ops s ts \<longleftrightarrow>
     ts \<noteq> [] \<and> ext_chain ops s ts \<and> is_solved ops (last ts) \<and> list_all (\<lambda>t. \<not> fail_fast ops t) ts"

section \<open>Proof devices\<close>

text \<open>
  The definitions of this section are not code of the repository. They describe the two
  loops on lists of states instead of lists of nodes: \<open>kept\<close> is the list of extensions
  that one \<^verbatim>\<open>for\<close> loop appends to the work list, \<open>run\<close> the runs of a \<^verbatim>\<open>while\<close> loop
  that return (\<open>Lifo\<close> for \<^verbatim>\<open>pop()\<close>, \<open>Fifo\<close> for \<^verbatim>\<open>pop(0)\<close>; \<open>dead\<close> is the third
  test of the skip condition). Both are proved equal to the loops of the source below.
\<close>

definition node_of :: "'s \<Rightarrow> 's PuzzleNode" where
  "node_of e = PuzzleNode (Some e) [] None"

fun kept :: "('s \<Rightarrow> bool) \<Rightarrow> 's Puzzle \<Rightarrow> 's list \<Rightarrow> string set \<Rightarrow> 's list" where
  "kept dead ops [] seen = []"
| "kept dead ops (e # es) seen =
     (if fail_fast ops e \<or> str ops e \<in> seen \<or> dead e then kept dead ops es seen
      else e # kept dead ops es (insert (str ops e) seen))"

datatype discipline = Lifo | Fifo

fun pick :: "discipline \<Rightarrow> 'a list \<Rightarrow> 'a" where
  "pick Lifo ps = last ps"
| "pick Fifo ps = hd ps"

fun rest :: "discipline \<Rightarrow> 'a list \<Rightarrow> 'a list" where
  "rest Lifo ps = butlast ps"
| "rest Fifo ps = tl ps"

inductive run ::
  "discipline \<Rightarrow> ('s \<Rightarrow> bool) \<Rightarrow> 's Puzzle \<Rightarrow> string set \<Rightarrow> 's list \<Rightarrow> 's option \<Rightarrow> bool"
  for d :: discipline and dead :: "'s \<Rightarrow> bool" and ops :: "'s Puzzle" where
  run_nil: "run d dead ops seen [] None"
| run_found:
  "ps \<noteq> [] \<Longrightarrow> find (is_solved ops) (extensions ops (pick d ps)) = Some e
     \<Longrightarrow> run d dead ops seen ps (Some e)"
| run_step:
  "ps \<noteq> [] \<Longrightarrow> find (is_solved ops) (extensions ops (pick d ps)) = None
     \<Longrightarrow> run d dead ops (seen \<union> str ops ` set (kept dead ops (extensions ops (pick d ps)) seen))
           (rest d ps @ kept dead ops (extensions ops (pick d ps)) seen) r
     \<Longrightarrow> run d dead ops seen ps r"

text \<open>
  \<open>trace\<close> is to \<open>dfs_examined\<close> and \<open>bfs_examined\<close> what \<open>run\<close> is to the two loops. The
  other definitions are the invariants of the completeness proofs: \<open>pending\<close> (a state
  with a good chain that is visited and no longer on the work list has handed the chain on
  to a visited state with a shorter one), \<open>within\<close> (the states at most \<open>j\<close> extensions away
  from \<open>s\<close>), \<open>bfs_inv\<close> (the work list of \<^verbatim>\<open>breadth_first_solve\<close> holds two consecutive
  levels and a state with a good chain that ends within depth \<open>k\<close>) and \<open>endless_inv\<close> (the
  configurations of \<^verbatim>\<open>depth_first_solve\<close> on the puzzle \<open>endless\<close>).
\<close>

fun trace ::
  "discipline \<Rightarrow> ('s \<Rightarrow> bool) \<Rightarrow> 's Puzzle \<Rightarrow> nat \<Rightarrow> string set \<Rightarrow> 's list \<Rightarrow> 's list" where
  "trace d dead ops 0 seen ps = []"
| "trace d dead ops (Suc k) seen ps =
     (if ps = [] then []
      else pick d ps #
        (case find (is_solved ops) (extensions ops (pick d ps)) of
           Some e \<Rightarrow> []
         | None \<Rightarrow> trace d dead ops k
                     (seen \<union> str ops ` set (kept dead ops (extensions ops (pick d ps)) seen))
                     (rest d ps @ kept dead ops (extensions ops (pick d ps)) seen)))"

definition pending :: "'s Puzzle \<Rightarrow> 's \<Rightarrow> string set \<Rightarrow> 's list \<Rightarrow> bool" where
  "pending ops s seen ps \<longleftrightarrow>
     (\<forall>u\<in>reachable ops s. \<forall>ts. good_chain ops u ts \<and> str ops u \<in> seen \<and> u \<notin> set ps \<longrightarrow>
        (\<exists>v\<in>reachable ops s. \<exists>us. length us < length ts \<and> good_chain ops v us \<and> str ops v \<in> seen))"

definition within :: "'s Puzzle \<Rightarrow> 's \<Rightarrow> nat \<Rightarrow> 's set" where
  "within ops s j = {t. \<exists>ts. ext_chain ops s ts \<and> length ts \<le> j \<and> last (s # ts) = t}"

definition bfs_inv :: "'s Puzzle \<Rightarrow> 's \<Rightarrow> nat \<Rightarrow> string set \<Rightarrow> 's list \<Rightarrow> bool" where
  "bfs_inv ops s k seen ps \<longleftrightarrow>
     pending ops s seen ps \<and>
     (\<exists>j A B. ps = A @ B \<and> set A \<subseteq> within ops s j \<and> set B \<subseteq> within ops s (Suc j) \<and>
        (\<exists>g us. good_chain ops g us \<and>
           ((g \<in> set A \<and> j + length us \<le> k) \<or> (g \<in> set B \<and> Suc j + length us \<le> k))))"

definition endless_inv :: "string set \<Rightarrow> nat list \<Rightarrow> bool" where
  "endless_inv seen ps \<longleftrightarrow>
     (ps = [0] \<and> seen = {}) \<or>
     (\<exists>m. ps = [1, m] \<and> even m \<and> 2 \<le> m \<and> (\<forall>x\<in>seen. length x \<le> m))"

section \<open>Example puzzles\<close>

text \<open>
  \<open>counter\<close> counts from 0 to 5, the solved state. In \<open>collide\<close> the states 1 and 2 have
  the same canonical string; 2 leads to the solved state 3 and 1 to a dead end. In \<open>doomed\<close>
  every state fails fast and none is solved. In \<open>siblings\<close> the state 0 has the extensions
  1 (unsolved, with the solved state 4 below it), 2 and 3 (both solved). \<open>dead_end\<close> has
  one extension of 0, unsolved and without extensions.
  \<open>endless\<close> has the solved state 3 behind state 1 and an infinite branch 2, 4, 6, ...
  \<open>two_cycle\<close> goes from 0 to 1 and back. The two sudoku grids are the solved 4 by 4 grid
  of the doctests, one with its last cell empty.
\<close>

definition counter :: "nat Puzzle" where
  "counter = \<lparr> is_solved = (\<lambda>n. n = 5), extensions = (\<lambda>n. if n = 5 then [] else [n + 1]),
               fail_fast = (\<lambda>_. False), str = (\<lambda>n. replicate n CHR ''i'') \<rparr>"

definition collide :: "nat Puzzle" where
  "collide = \<lparr> is_solved = (\<lambda>n. n = 3),
               extensions = (\<lambda>n. if n = 0 then [1, 2] else if n = 1 then [4] else if n = 2 then [3] else []),
               fail_fast = (\<lambda>_. False),
               str = (\<lambda>n. if n = 1 \<or> n = 2 then ''x'' else replicate n CHR ''i'') \<rparr>"

definition doomed :: "nat Puzzle" where
  "doomed = \<lparr> is_solved = (\<lambda>_. False), extensions = (\<lambda>n. [n + 1]),
              fail_fast = (\<lambda>_. True), str = (\<lambda>n. replicate n CHR ''i'') \<rparr>"

definition siblings :: "nat Puzzle" where
  "siblings = \<lparr> is_solved = (\<lambda>n. n = 2 \<or> n = 3 \<or> n = 4),
                extensions = (\<lambda>n. if n = 0 then [1, 2, 3] else if n = 1 then [4] else []),
                fail_fast = (\<lambda>_. False), str = (\<lambda>n. replicate n CHR ''i'') \<rparr>"

definition dead_end :: "nat Puzzle" where
  "dead_end = \<lparr> is_solved = (\<lambda>_. False), extensions = (\<lambda>n. if n = 0 then [1] else []),
              fail_fast = (\<lambda>_. False), str = (\<lambda>n. replicate n CHR ''i'') \<rparr>"

definition endless :: "nat Puzzle" where
  "endless = \<lparr> is_solved = (\<lambda>n. n = 3),
               extensions = (\<lambda>n. if n = 0 then [1, 2] else if n = 1 then [3] else if n = 3 then [] else [n + 2]),
               fail_fast = (\<lambda>_. False), str = (\<lambda>n. replicate n CHR ''i'') \<rparr>"

definition two_cycle :: "nat Puzzle" where
  "two_cycle = \<lparr> is_solved = (\<lambda>_. False), extensions = (\<lambda>n. if n = 0 then [1] else [0]),
              fail_fast = (\<lambda>_. False), str = (\<lambda>n. replicate n CHR ''i'') \<rparr>"

definition one_empty_cell :: SudokuPuzzle where
  "one_empty_cell = \<lparr> sudoku_n = 4,
     sudoku_symbols = [[''A'', ''B'', ''C'', ''D''], [''C'', ''D'', ''A'', ''B''],
                       [''B'', ''A'', ''D'', ''C''], [''D'', ''C'', ''B'', ''*'']],
     sudoku_symbol_set = {''A'', ''B'', ''C'', ''D''} \<rparr>"

definition filled_grid :: SudokuPuzzle where
  "filled_grid = \<lparr> sudoku_n = 4,
     sudoku_symbols = [[''A'', ''B'', ''C'', ''D''], [''C'', ''D'', ''A'', ''B''],
                       [''B'', ''A'', ''D'', ''C''], [''D'', ''C'', ''B'', ''A'']],
     sudoku_symbol_set = {''A'', ''B'', ''C'', ''D''} \<rparr>"

section \<open>Node equality\<close>

lemma node_eq_refl: "node_eq a a"
proof (induction a)
  case (PuzzleNode p cs par)
  have "list_all (\<lambda>x. list_ex (\<lambda>e. node_eq x e) cs) cs"
    unfolding list_all_iff list_ex_iff using PuzzleNode.IH(1) by blast
  then show ?case by simp
qed

lemma node_eq_sym: "node_eq a b = node_eq b a"
  by (cases a; cases b) auto

lemma node_eq_iff:
  "node_eq x y \<longleftrightarrow>
     puzzle x = puzzle y \<and>
     list_all (\<lambda>c. list_ex (\<lambda>d. node_eq c d) (children x)) (children y) \<and>
     list_all (\<lambda>c. list_ex (\<lambda>d. node_eq c d) (children y)) (children x)"
  by (cases x; cases y) simp

text \<open>
  Claim C9. \<^verbatim>\<open>PuzzleNode.__eq__\<close> ignores the order of the children: a node with
  children \<open>[a, b]\<close> equals the node with the same puzzle and children \<open>[b, a]\<close>; it does
  not equal the node with children \<open>[a]\<close> when \<open>b\<close> is not equal to \<open>a\<close>. In general a
  node equals \<open>other\<close> iff \<open>other\<close> is a node too, the two puzzles are equal, and every
  child of each is equal to some child of the other.
\<close>

theorem PuzzleNode_eq_spec:
  "node_eq (PuzzleNode s [a, b] par) (PuzzleNode s [b, a] par')
   \<and> (\<not> node_eq b a \<longrightarrow> \<not> node_eq (PuzzleNode s [a, b] par) (PuzzleNode s [a] par'))
   \<and> (PuzzleNode_eq x (other :: 's PuzzleNode + 'a) \<longleftrightarrow>
        (\<exists>y. other = Inl y \<and> puzzle x = puzzle y
           \<and> list_all (\<lambda>c. list_ex (\<lambda>d. node_eq c d) (children x)) (children y)
           \<and> list_all (\<lambda>c. list_ex (\<lambda>d. node_eq c d) (children y)) (children x)))"
proof (intro conjI)
  show "node_eq (PuzzleNode s [a, b] par) (PuzzleNode s [b, a] par')"
    by (simp add: node_eq_refl)
  show "\<not> node_eq b a \<longrightarrow> \<not> node_eq (PuzzleNode s [a, b] par) (PuzzleNode s [a] par')"
    by simp
  show "PuzzleNode_eq x other \<longleftrightarrow>
        (\<exists>y. other = Inl y \<and> puzzle x = puzzle y
           \<and> list_all (\<lambda>c. list_ex (\<lambda>d. node_eq c d) (children x)) (children y)
           \<and> list_all (\<lambda>c. list_ex (\<lambda>d. node_eq c d) (children y)) (children x))"
    using node_eq_iff [of x] by (cases other) (simp_all add: PuzzleNode_eq_def)
qed

theorem PuzzleNode_eq_spec_witness:
  "\<not> node_eq (PuzzleNode (Some (2::nat)) [] None) (PuzzleNode (Some 1) [] None)
   \<and> node_eq (PuzzleNode (Some (0::nat)) [PuzzleNode (Some 1) [] None, PuzzleNode (Some 2) [] None] None)
          (PuzzleNode (Some 0) [PuzzleNode (Some 2) [] None, PuzzleNode (Some 1) [] None] None)
   \<and> \<not> node_eq (PuzzleNode (Some (0::nat)) [PuzzleNode (Some 1) [] None, PuzzleNode (Some 2) [] None] None)
          (PuzzleNode (Some 0) [PuzzleNode (Some 1) [] None] None)"
  using PuzzleNode_eq_spec [of "Some (0::nat)" "PuzzleNode (Some 1) [] None" "PuzzleNode (Some 2) [] None" None None
      "PuzzleNode None [] None" "Inl (PuzzleNode None [] None) :: nat PuzzleNode + unit"]
  by simp

section \<open>The loops on states\<close>

lemma node_of_init: "PuzzleNode_init (Some e) None None = node_of e"
  by (simp add: PuzzleNode_init_def node_of_def)

lemma puzzle_node_of [simp]: "puzzle (node_of e) = Some e"
  by (simp add: node_of_def)

lemma dfs_for_char:
  "dfs_for ops exts seen np =
     (case find (is_solved ops) exts of
        Some e \<Rightarrow> Inl (node_of e)
      | None \<Rightarrow> Inr (seen \<union> str ops ` set (kept (\<lambda>_. False) ops exts seen),
                     np @ map node_of (kept (\<lambda>_. False) ops exts seen)))"
  by (induction exts arbitrary: seen np)
     (auto simp: node_of_init bound_method_eq_list_def split: option.splits)

lemma bfs_for_char:
  "bfs_for ops exts seen np =
     (case find (is_solved ops) exts of
        Some e \<Rightarrow> Inl (node_of e)
      | None \<Rightarrow> Inr (seen \<union> str ops ` set (kept (\<lambda>e. extensions ops e = []) ops exts seen),
                     np @ map node_of (kept (\<lambda>e. extensions ops e = []) ops exts seen)))"
  by (induction exts arbitrary: seen np)
     (auto simp: node_of_init split: option.splits)

lemma kept_subset: "set (kept dead ops exts seen) \<subseteq> set exts"
  by (induction exts arbitrary: seen) auto

lemma kept_fresh: "str ops ` set (kept dead ops exts seen) \<inter> seen = {}"
proof (induction exts arbitrary: seen)
  case Nil
  then show ?case by simp
next
  case (Cons e es)
  show ?case using Cons.IH [of seen] Cons.IH [of "insert (str ops e) seen"] by auto
qed

lemma kept_distinct: "distinct (map (str ops) (kept dead ops exts seen))"
proof (induction exts arbitrary: seen)
  case Nil
  then show ?case by simp
next
  case (Cons e es)
  show ?case using Cons.IH [of seen] Cons.IH [of "insert (str ops e) seen"]
      kept_fresh [of ops dead es "insert (str ops e) seen"] by auto
qed

lemma kept_covers:
  "e \<in> set exts \<Longrightarrow> \<not> fail_fast ops e \<Longrightarrow> \<not> dead e
     \<Longrightarrow> str ops e \<in> seen \<union> str ops ` set (kept dead ops exts seen)"
proof (induction exts arbitrary: seen)
  case Nil
  then show ?case by simp
next
  case (Cons x xs)
  show ?case
  proof (cases "e = x")
    case True
    then show ?thesis using Cons.prems by auto
  next
    case False
    then have "e \<in> set xs" using Cons.prems by simp
    from Cons.IH [OF this Cons.prems(2,3), of seen]
         Cons.IH [OF this Cons.prems(2,3), of "insert (str ops x) seen"]
    show ?thesis by auto
  qed
qed

lemma dfs_while_nil: "dfs_while ops seen [] = Some (Inr None)"
  by (subst dfs_while.simps) simp

lemma dfs_while_cons:
  assumes "ps \<noteq> []"
  shows "dfs_while ops seen (map node_of ps) =
     (case find (is_solved ops) (extensions ops (last ps)) of
        Some e \<Rightarrow> Some (Inr (Some (node_of e)))
      | None \<Rightarrow> dfs_while ops
          (seen \<union> str ops ` set (kept (\<lambda>_. False) ops (extensions ops (last ps)) seen))
          (map node_of (butlast ps @ kept (\<lambda>_. False) ops (extensions ops (last ps)) seen)))"
  using assms
  by (subst dfs_while.simps)
     (simp add: last_map map_butlast dfs_for_char split: option.splits)

lemma bfs_while_nil: "bfs_while ops seen [] = Some (Inr None)"
  by (subst bfs_while.simps) simp

lemma bfs_while_cons:
  assumes "ps \<noteq> []"
  shows "bfs_while ops seen (map node_of ps) =
     (case find (is_solved ops) (extensions ops (hd ps)) of
        Some e \<Rightarrow> Some (Inr (Some (node_of e)))
      | None \<Rightarrow> bfs_while ops
          (seen \<union> str ops ` set (kept (\<lambda>e. extensions ops e = []) ops (extensions ops (hd ps)) seen))
          (map node_of (tl ps @ kept (\<lambda>e. extensions ops e = []) ops (extensions ops (hd ps)) seen)))"
  using assms
  by (subst bfs_while.simps)
     (simp add: hd_map map_tl bfs_for_char split: option.splits)

lemma run_dfs_while:
  "run Lifo (\<lambda>_. False) ops seen ps r
     \<Longrightarrow> dfs_while ops seen (map node_of ps) = Some (Inr (map_option node_of r))"
proof (induction rule: run.induct)
  case (run_nil seen)
  show ?case by (simp add: dfs_while_nil)
next
  case (run_found ps e seen)
  then show ?case by (simp add: dfs_while_cons)
next
  case (run_step ps seen r)
  then show ?case by (simp add: dfs_while_cons)
qed

lemma run_bfs_while:
  "run Fifo (\<lambda>e. extensions ops e = []) ops seen ps r
     \<Longrightarrow> bfs_while ops seen (map node_of ps) = Some (Inr (map_option node_of r))"
proof (induction rule: run.induct)
  case (run_nil seen)
  show ?case by (simp add: bfs_while_nil)
next
  case (run_found ps e seen)
  then show ?case by (simp add: bfs_while_cons)
next
  case (run_step ps seen r)
  then show ?case by (simp add: bfs_while_cons)
qed

lemma dfs_while_run:
  assumes "dfs_while ops seen np = Some y"
  shows "\<forall>ps. np = map node_of ps \<longrightarrow>
           (\<exists>r. run Lifo (\<lambda>_. False) ops seen ps r \<and> y = Inr (map_option node_of r))"
  using assms
proof (induction rule: dfs_while.raw_induct [rotated, consumes 1])
  case (1 f ops seen np y)
  show ?case
  proof (intro allI impI)
    fix ps
    assume np: "np = map node_of ps"
    show "\<exists>r. run Lifo (\<lambda>_. False) ops seen ps r \<and> y = Inr (map_option node_of r)"
    proof (cases "ps = []")
      case True
      then have "y = Inr None" using 1(2) np by simp
      then show ?thesis using True run_nil [of Lifo "\<lambda>_. False" ops seen] by auto
    next
      case False
      show ?thesis
      proof (cases "find (is_solved ops) (extensions ops (last ps))")
        case (Some e)
        then have "y = Inr (Some (node_of e))"
          using 1(2) np False by (simp add: last_map map_butlast dfs_for_char)
        then show ?thesis
          using run_found [of ps ops Lifo e "\<lambda>_. False" seen] False Some by auto
      next
        case None
        let ?K = "kept (\<lambda>_. False) ops (extensions ops (last ps)) seen"
        have "f ops (seen \<union> str ops ` set ?K) (map node_of (butlast ps @ ?K)) = Some y"
          using 1(2) np False None by (simp add: last_map map_butlast dfs_for_char)
        from 1(1) [OF this] obtain r where
          "run Lifo (\<lambda>_. False) ops (seen \<union> str ops ` set ?K) (butlast ps @ ?K) r"
          "y = Inr (map_option node_of r)" by blast
        then show ?thesis
          using run_step [of ps ops Lifo "\<lambda>_. False" seen r] False None by auto
      qed
    qed
  qed
qed

lemma bfs_while_run:
  assumes "bfs_while ops seen np = Some y"
  shows "\<forall>ps. np = map node_of ps \<longrightarrow>
           (\<exists>r. run Fifo (\<lambda>e. extensions ops e = []) ops seen ps r \<and> y = Inr (map_option node_of r))"
  using assms
proof (induction rule: bfs_while.raw_induct [rotated, consumes 1])
  case (1 f ops seen np y)
  show ?case
  proof (intro allI impI)
    fix ps
    assume np: "np = map node_of ps"
    show "\<exists>r. run Fifo (\<lambda>e. extensions ops e = []) ops seen ps r \<and> y = Inr (map_option node_of r)"
    proof (cases "ps = []")
      case True
      then have "y = Inr None" using 1(2) np by simp
      then show ?thesis using True run_nil [of Fifo "\<lambda>e. extensions ops e = []" ops seen] by auto
    next
      case False
      show ?thesis
      proof (cases "find (is_solved ops) (extensions ops (hd ps))")
        case (Some e)
        then have "y = Inr (Some (node_of e))"
          using 1(2) np False by (simp add: hd_map map_tl bfs_for_char)
        then show ?thesis
          using run_found [of ps ops Fifo e "\<lambda>e. extensions ops e = []" seen] False Some by auto
      next
        case None
        let ?K = "kept (\<lambda>e. extensions ops e = []) ops (extensions ops (hd ps)) seen"
        have "f ops (seen \<union> str ops ` set ?K) (map node_of (tl ps @ ?K)) = Some y"
          using 1(2) np False None by (simp add: hd_map map_tl bfs_for_char)
        from 1(1) [OF this] obtain r where
          "run Fifo (\<lambda>e. extensions ops e = []) ops (seen \<union> str ops ` set ?K) (tl ps @ ?K) r"
          "y = Inr (map_option node_of r)" by blast
        then show ?thesis
          using run_step [of ps ops Fifo "\<lambda>e. extensions ops e = []" seen r] False None by auto
      qed
    qed
  qed
qed

lemma pick_in: "ps \<noteq> [] \<Longrightarrow> pick d ps \<in> set ps"
  by (cases d) simp_all

lemma set_pick_rest: "ps \<noteq> [] \<Longrightarrow> set ps = insert (pick d ps) (set (rest d ps))"
proof (cases d)
  case Lifo
  assume "ps \<noteq> []"
  then have "ps = butlast ps @ [last ps]" by simp
  then have "set ps = set (butlast ps @ [last ps])" by simp
  then show ?thesis using Lifo by simp
next
  case Fifo
  assume "ps \<noteq> []"
  then show ?thesis using Fifo by (cases ps) auto
qed

lemma length_rest: "ps \<noteq> [] \<Longrightarrow> Suc (length (rest d ps)) = length ps"
  by (cases d) (simp_all)

lemma ext_chain_append:
  "ext_chain ops s (ts @ us) \<longleftrightarrow> ext_chain ops s ts \<and> ext_chain ops (last (s # ts)) us"
  by (induction ts arbitrary: s) auto

lemma reachable_refl: "s \<in> reachable ops s"
  unfolding reachable_def using ext_chain.simps(1) [of ops s] by force

lemma reachable_step:
  assumes "t \<in> reachable ops s" "e \<in> set (extensions ops t)"
  shows "e \<in> reachable ops s"
proof -
  from assms(1) obtain ts where ts: "ext_chain ops s ts" "last (s # ts) = t"
    unfolding reachable_def by blast
  have "ext_chain ops s (ts @ [e])"
    using ts assms(2) by (simp only: ext_chain_append) simp
  moreover have "last (s # ts @ [e]) = e" by simp
  ultimately show ?thesis unfolding reachable_def by blast
qed

lemma find_Some_split:
  "find P xs = Some x \<Longrightarrow> \<exists>pre post. xs = pre @ x # post \<and> P x \<and> (\<forall>y\<in>set pre. \<not> P y)"
proof (induction xs)
  case Nil
  then show ?case by simp
next
  case (Cons a xs)
  show ?case
  proof (cases "P a")
    case True
    then have "x = a" using Cons.prems by simp
    then have "a # xs = [] @ x # xs \<and> P x \<and> (\<forall>y\<in>set []. \<not> P y)" using True by simp
    then show ?thesis by blast
  next
    case False
    then have "find P xs = Some x" using Cons.prems by simp
    from Cons.IH [OF this] obtain pre post where
      "xs = pre @ x # post" "P x" "\<forall>y\<in>set pre. \<not> P y" by blast
    then have "a # xs = (a # pre) @ x # post \<and> P x \<and> (\<forall>y\<in>set (a # pre). \<not> P y)"
      using False by simp
    then show ?thesis by blast
  qed
qed

lemma next_reachable:
  assumes "ps \<noteq> []" "set ps \<subseteq> reachable ops s"
  shows "set (rest d ps @ kept dead ops (extensions ops (pick d ps)) seen) \<subseteq> reachable ops s"
proof -
  have p: "pick d ps \<in> reachable ops s" using assms pick_in by blast
  have "set (rest d ps) \<subseteq> reachable ops s"
    using assms set_pick_rest [OF assms(1), of d] by auto
  moreover have "set (kept dead ops (extensions ops (pick d ps)) seen) \<subseteq> reachable ops s"
    using kept_subset [of dead ops "extensions ops (pick d ps)" seen] reachable_step [OF p] by blast
  ultimately show ?thesis by simp
qed

lemma run_sound:
  assumes "run d dead ops seen ps r" "set ps \<subseteq> reachable ops s" "r = Some e"
  shows "\<exists>t\<in>reachable ops s. \<exists>pre post. extensions ops t = pre @ e # post
            \<and> is_solved ops e \<and> (\<forall>x\<in>set pre. \<not> is_solved ops x)"
  using assms
proof (induction rule: run.induct)
  case (run_nil seen)
  then show ?case by simp
next
  case (run_found ps e' seen)
  then have "pick d ps \<in> reachable ops s" using pick_in by blast
  moreover from run_found have "find (is_solved ops) (extensions ops (pick d ps)) = Some e" by simp
  ultimately show ?case using find_Some_split by fast
next
  case (run_step ps seen r)
  show ?case
    using run_step.IH next_reachable [OF run_step.hyps(1) run_step.prems(1)] run_step.prems(2)
    by blast
qed

lemma run_total:
  assumes fin: "finite (str ops ` reachable ops s)"
  shows "set ps \<subseteq> reachable ops s \<Longrightarrow> \<exists>r. run d dead ops seen ps r"
proof (induction "card (str ops ` reachable ops s - seen) + length ps"
       arbitrary: seen ps rule: less_induct)
  case less
  let ?R = "str ops ` reachable ops s"
  show ?case
  proof (cases "ps = []")
    case True
    then show ?thesis using run_nil by blast
  next
    case False
    let ?exts = "extensions ops (pick d ps)"
    show ?thesis
    proof (cases "find (is_solved ops) ?exts")
      case (Some e)
      then show ?thesis using run_found [OF False] by blast
    next
      case None
      let ?K = "kept dead ops ?exts seen"
      let ?seen = "seen \<union> str ops ` set ?K"
      let ?ps = "rest d ps @ ?K"
      have sub: "set ?ps \<subseteq> reachable ops s" using next_reachable [OF False less.prems] .
      have KR: "str ops ` set ?K \<subseteq> ?R - seen"
        using sub kept_fresh [of ops dead ?exts seen] by auto
      have cK: "card (str ops ` set ?K) = length ?K"
        using kept_distinct [of ops dead ?exts seen] distinct_card [of "map (str ops) ?K"] by simp
      have "?R - ?seen = (?R - seen) - str ops ` set ?K" by blast
      then have "card (?R - ?seen) = card (?R - seen) - length ?K"
        using card_Diff_subset [of "str ops ` set ?K" "?R - seen"] KR cK by simp
      moreover have "length ?K \<le> card (?R - seen)"
        using card_mono [OF _ KR] fin cK by simp
      moreover have "Suc (length (rest d ps)) = length ps" using length_rest [OF False] .
      ultimately have "card (?R - ?seen) + length ?ps < card (?R - seen) + length ps"
        by simp
      from less.hyps [OF this sub] obtain r where "run d dead ops ?seen ?ps r" by blast
      then show ?thesis using run_step [OF False None] by blast
    qed
  qed
qed

lemma good_chain_peel:
  assumes "good_chain ops u ts" "find (is_solved ops) (extensions ops u) = None"
  shows "\<exists>t us. t \<in> set (extensions ops u) \<and> good_chain ops t us \<and> length us < length ts
            \<and> \<not> fail_fast ops t \<and> extensions ops t \<noteq> []"
proof -
  from assms(1) obtain t us where ts: "ts = t # us"
    unfolding good_chain_def by (cases ts) auto
  have t: "t \<in> set (extensions ops u)" "ext_chain ops t us" "\<not> fail_fast ops t"
    using assms(1) ts unfolding good_chain_def by auto
  have "\<not> is_solved ops t" using assms(2) t(1) by (auto simp: find_None_iff)
  then have us: "us \<noteq> []" using assms(1) ts unfolding good_chain_def by auto
  then have "good_chain ops t us" using assms(1) ts t unfolding good_chain_def by auto
  moreover have "extensions ops t \<noteq> []" using us t(2) by (cases us) auto
  ultimately show ?thesis using t ts by auto
qed

lemma pending_nil_descent:
  assumes "pending ops s seen []"
  shows "u \<in> reachable ops s \<Longrightarrow> good_chain ops u ts \<Longrightarrow> str ops u \<notin> seen"
proof (induction "length ts" arbitrary: u ts rule: less_induct)
  case less
  show ?case
  proof
    assume "str ops u \<in> seen"
    with assms less.prems obtain v us where
      "v \<in> reachable ops s" "length us < length ts" "good_chain ops v us" "str ops v \<in> seen"
      unfolding pending_def by fastforce
    with less.hyps show False by blast
  qed
qed

lemma good_child_seen:
  assumes dead: "\<And>e. dead e \<Longrightarrow> extensions ops e = []"
    and "good_chain ops p ts" "find (is_solved ops) (extensions ops p) = None"
  shows "\<exists>t us. t \<in> set (extensions ops p) \<and> good_chain ops t us \<and> length us < length ts
            \<and> str ops t \<in> seen \<union> str ops ` set (kept dead ops (extensions ops p) seen)"
proof -
  from good_chain_peel [OF assms(2,3)] obtain t us where
    t: "t \<in> set (extensions ops p)" "good_chain ops t us" "length us < length ts"
       "\<not> fail_fast ops t" "extensions ops t \<noteq> []" by blast
  have "\<not> dead t" using t(5) dead by blast
  then have "str ops t \<in> seen \<union> str ops ` set (kept dead ops (extensions ops p) seen)"
    using kept_covers [of t "extensions ops p" ops dead seen] t(1) t(4) by simp
  then show ?thesis using t by blast
qed

lemma pending_step:
  assumes inj: "inj_on (str ops) (reachable ops s)"
    and dead: "\<And>e. dead e \<Longrightarrow> extensions ops e = []"
    and ne: "ps \<noteq> []" and sub: "set ps \<subseteq> reachable ops s"
    and none: "find (is_solved ops) (extensions ops (pick d ps)) = None"
    and pend: "pending ops s seen ps"
  shows "pending ops s (seen \<union> str ops ` set (kept dead ops (extensions ops (pick d ps)) seen))
           (rest d ps @ kept dead ops (extensions ops (pick d ps)) seen)"
proof -
  let ?p = "pick d ps"
  let ?K = "kept dead ops (extensions ops ?p) seen"
  let ?seen = "seen \<union> str ops ` set ?K"
  let ?ps = "rest d ps @ ?K"
  have sub': "set ?ps \<subseteq> reachable ops s" using next_reachable [OF ne sub] .
  have pR: "?p \<in> reachable ops s" using ne sub pick_in by blast
  have setps: "set ps = insert ?p (set (rest d ps))" using set_pick_rest [OF ne] .
  show ?thesis
    unfolding pending_def
  proof (intro ballI allI impI)
    fix u ts
    assume u: "u \<in> reachable ops s"
      and h: "good_chain ops u ts \<and> str ops u \<in> ?seen \<and> u \<notin> set ?ps"
    show "\<exists>v\<in>reachable ops s. \<exists>us. length us < length ts \<and> good_chain ops v us
             \<and> str ops v \<in> ?seen"
    proof (cases "str ops u \<in> seen")
      case True
      show ?thesis
      proof (cases "u \<in> set ps")
        case True
        then have "u = ?p" using h setps by auto
        with h have "good_chain ops ?p ts" by simp
        from good_child_seen [where seen = seen and dead = dead, OF dead this none] obtain t us where
          t: "t \<in> set (extensions ops ?p)" "good_chain ops t us" "length us < length ts"
             "str ops t \<in> ?seen" by blast
        moreover have "t \<in> reachable ops s" using reachable_step [OF pR t(1)] .
        ultimately show ?thesis by blast
      next
        case False
        with pend u h True obtain v us where
          "v \<in> reachable ops s" "length us < length ts" "good_chain ops v us" "str ops v \<in> seen"
          unfolding pending_def by fastforce
        then show ?thesis by blast
      qed
    next
      case False
      then obtain e where e: "e \<in> set ?K" "str ops e = str ops u" using h by auto
      then have "e \<in> reachable ops s" using sub' by auto
      then have "e = u" using inj u e(2) by (auto dest: inj_onD)
      then show ?thesis using e(1) h by simp
    qed
  qed
qed

lemma pending_descent:
  assumes "pending ops s seen ps"
  shows "u \<in> reachable ops s \<Longrightarrow> good_chain ops u us \<Longrightarrow> str ops u \<in> seen
           \<Longrightarrow> \<exists>v vs. v \<in> set ps \<and> good_chain ops v vs \<and> length vs \<le> length us"
proof (induction "length us" arbitrary: u us rule: less_induct)
  case less
  show ?case
  proof (cases "u \<in> set ps")
    case True
    then show ?thesis using less.prems(2) by blast
  next
    case False
    with assms less.prems obtain v vs where
      v: "v \<in> reachable ops s" "length vs < length us" "good_chain ops v vs" "str ops v \<in> seen"
      unfolding pending_def by fastforce
    from less.hyps [OF v(2) v(1) v(3) v(4)] obtain w ws where
      "w \<in> set ps" "good_chain ops w ws" "length ws \<le> length vs" by blast
    then show ?thesis using v(2) by (intro exI [of _ w] exI [of _ ws]) simp
  qed
qed

lemma run_none_no_good:
  assumes inj: "inj_on (str ops) (reachable ops s)"
    and dead: "\<And>e. dead e \<Longrightarrow> extensions ops e = []"
  shows "run d dead ops seen ps r \<Longrightarrow> r = None \<Longrightarrow> set ps \<subseteq> reachable ops s
     \<Longrightarrow> pending ops s seen ps
     \<Longrightarrow> \<forall>u\<in>reachable ops s. \<forall>ts. good_chain ops u ts \<longrightarrow> str ops u \<notin> seen \<and> u \<notin> set ps"
proof (induction rule: run.induct)
  case (run_nil seen)
  then show ?case using pending_nil_descent by fastforce
next
  case (run_found ps e seen)
  then show ?case by simp
next
  case (run_step ps seen r)
  let ?p = "pick d ps"
  let ?K = "kept dead ops (extensions ops ?p) seen"
  let ?seen = "seen \<union> str ops ` set ?K"
  let ?ps = "rest d ps @ ?K"
  have sub: "set ?ps \<subseteq> reachable ops s"
    using next_reachable [OF run_step.hyps(1) run_step.prems(2)] .
  have pR: "?p \<in> reachable ops s" using run_step.hyps(1) run_step.prems(2) pick_in by blast
  have setps: "set ps = insert ?p (set (rest d ps))" using set_pick_rest [OF run_step.hyps(1)] .
  have pend: "pending ops s ?seen ?ps"
    using pending_step [OF inj dead run_step.hyps(1) run_step.prems(2) run_step.hyps(2)
        run_step.prems(3)] .
  from run_step.IH [OF run_step.prems(1) sub pend]
  have IH: "\<forall>u\<in>reachable ops s. \<forall>ts. good_chain ops u ts \<longrightarrow> str ops u \<notin> ?seen \<and> u \<notin> set ?ps" .
  show ?case
  proof (intro ballI allI impI)
    fix u ts
    assume u: "u \<in> reachable ops s" and g: "good_chain ops u ts"
    from IH u g have a: "str ops u \<notin> ?seen" "u \<notin> set ?ps" by blast+
    have "u \<noteq> ?p"
    proof
      assume "u = ?p"
      with g have "good_chain ops ?p ts" by simp
      from good_child_seen [where seen = seen and dead = dead, OF dead this run_step.hyps(2)]
      obtain t us where t: "t \<in> set (extensions ops ?p)" "good_chain ops t us" "str ops t \<in> ?seen"
        by blast
      moreover have "t \<in> reachable ops s" using reachable_step [OF pR t(1)] .
      ultimately show False using IH by blast
    qed
    then have "u \<notin> set ps" using a(2) setps by auto
    then show "str ops u \<notin> seen \<and> u \<notin> set ps" using a(1) by simp
  qed
qed

lemma run_complete:
  assumes inj: "inj_on (str ops) (reachable ops s)"
    and dead: "\<And>e. dead e \<Longrightarrow> extensions ops e = []"
    and good: "good_chain ops s ts"
    and run: "run d dead ops {} [s] r"
  shows "r \<noteq> None"
proof
  assume "r = None"
  have "pending ops s {} [s]" unfolding pending_def by simp
  from run_none_no_good [OF inj dead run \<open>r = None\<close> _ this] reachable_refl [of s ops] good
  show False by fastforce
qed

lemma start_node: "[PuzzleNode_init (Some s) None None] = map node_of [s]"
  by (simp add: node_of_init)

lemma dfs_result:
  "depth_first_solve ops s = Some y \<Longrightarrow>
     \<exists>r. run Lifo (\<lambda>_. False) ops {} [s] r \<and> y = Inr (map_option node_of r)"
  unfolding depth_first_solve_def start_node using dfs_while_run by blast

lemma bfs_result:
  "breadth_first_solve ops s = Some y \<Longrightarrow>
     \<exists>r. run Fifo (\<lambda>e. extensions ops e = []) ops {} [s] r \<and> y = Inr (map_option node_of r)"
  unfolding breadth_first_solve_def start_node using bfs_while_run by blast

lemma run_dfs_result:
  "run Lifo (\<lambda>_. False) ops {} [s] r \<Longrightarrow> depth_first_solve ops s = Some (Inr (map_option node_of r))"
  unfolding depth_first_solve_def start_node by (rule run_dfs_while)

lemma run_bfs_result:
  "run Fifo (\<lambda>e. extensions ops e = []) ops {} [s] r
     \<Longrightarrow> breadth_first_solve ops s = Some (Inr (map_option node_of r))"
  unfolding breadth_first_solve_def start_node by (rule run_bfs_while)

lemma dfs_found:
  assumes "depth_first_solve ops s = Some (Inr (Some n))"
  shows "\<exists>e. n = node_of e \<and> run Lifo (\<lambda>_. False) ops {} [s] (Some e)"
proof -
  from dfs_result [OF assms] obtain r where
    r: "run Lifo (\<lambda>_. False) ops {} [s] r" and eq: "Some n = map_option node_of r" by auto
  from eq obtain e where "r = Some e" "n = node_of e" by (cases r) auto
  with r show ?thesis by auto
qed

lemma bfs_found:
  assumes "breadth_first_solve ops s = Some (Inr (Some n))"
  shows "\<exists>e. n = node_of e \<and> run Fifo (\<lambda>e. extensions ops e = []) ops {} [s] (Some e)"
proof -
  from bfs_result [OF assms] obtain r where
    r: "run Fifo (\<lambda>e. extensions ops e = []) ops {} [s] r" and eq: "Some n = map_option node_of r"
    by auto
  from eq obtain e where "r = Some e" "n = node_of e" by (cases r) auto
  with r show ?thesis by auto
qed

lemma run_found_first:
  assumes "run d dead ops {} [s] (Some e)"
  shows "\<exists>t\<in>reachable ops s. \<exists>pre post. extensions ops t = pre @ e # post
            \<and> is_solved ops e \<and> (\<forall>x\<in>set pre. \<not> is_solved ops x)"
proof -
  have "set [s] \<subseteq> reachable ops s" using reachable_refl by simp
  from run_sound [OF assms this] show ?thesis by blast
qed

lemma found_first:
  assumes "depth_first_solve ops s = Some (Inr (Some n)) \<or> breadth_first_solve ops s = Some (Inr (Some n))"
  shows "\<exists>e. n = node_of e \<and> (\<exists>t\<in>reachable ops s. \<exists>pre post. extensions ops t = pre @ e # post
            \<and> is_solved ops e \<and> (\<forall>x\<in>set pre. \<not> is_solved ops x))"
  using assms
proof
  assume "depth_first_solve ops s = Some (Inr (Some n))"
  from dfs_found [OF this] obtain e where
    "n = node_of e" "run Lifo (\<lambda>_. False) ops {} [s] (Some e)" by auto
  then show ?thesis using run_found_first [of Lifo "\<lambda>_. False" ops s e] by auto
next
  assume "breadth_first_solve ops s = Some (Inr (Some n))"
  from bfs_found [OF this] obtain e where
    "n = node_of e" "run Fifo (\<lambda>e. extensions ops e = []) ops {} [s] (Some e)" by auto
  then show ?thesis using run_found_first [of Fifo "\<lambda>e. extensions ops e = []" ops s e] by auto
qed

lemma counter_dfs: "depth_first_solve counter 0 = Some (Inr (Some (PuzzleNode (Some 5) [] None)))"
  by code_simp

section \<open>The claims on the search\<close>

text \<open>
  Claim C1 (soundness). If \<^verbatim>\<open>depth_first_solve(s)\<close> or \<^verbatim>\<open>breadth_first_solve(s)\<close>
  returns a node \<open>n\<close>, then the puzzle of \<open>n\<close> is solved and is the end of a finite chain
  of states from \<open>s\<close>, each state an element of \<^verbatim>\<open>extensions()\<close> of the one before it.
\<close>

theorem search_sound:
  assumes "depth_first_solve ops s = Some (Inr (Some n)) \<or> breadth_first_solve ops s = Some (Inr (Some n))"
  shows "\<exists>e ts. puzzle n = Some e \<and> is_solved ops e \<and> ext_chain ops s ts \<and> last (s # ts) = e"
proof -
  from found_first [OF assms] obtain e t pre post where
    e: "n = node_of e" "t \<in> reachable ops s" "extensions ops t = pre @ e # post" "is_solved ops e"
    by blast
  then have "e \<in> reachable ops s" using reachable_step [of t ops s e] by simp
  then show ?thesis using e(1,4) unfolding reachable_def by auto
qed

theorem search_sound_witness:
  "depth_first_solve counter 0 = Some (Inr (Some (PuzzleNode (Some 5) [] None)))
   \<and> (\<exists>e ts. puzzle (PuzzleNode (Some 5) [] None) = Some e \<and> is_solved counter e
          \<and> ext_chain counter 0 ts \<and> last (0 # ts) = e)"
  using search_sound [of counter 0 "PuzzleNode (Some 5) [] None"] counter_dfs by simp

lemma run_no_push:
  assumes "find (is_solved ops) (extensions ops s) = None" "kept dead ops (extensions ops s) {} = []"
  shows "run d dead ops {} [s] None"
proof -
  have p: "pick d [s] = s" "rest d [s] = []" by (cases d; simp)+
  have "run d dead ops ({} \<union> str ops ` set (kept dead ops (extensions ops (pick d [s])) {}))
          (rest d [s] @ kept dead ops (extensions ops (pick d [s])) {}) None"
    using assms(2) p run_nil [of d dead ops "{}"] by simp
  then show ?thesis using run_step [of "[s]" ops d dead "{}" None] assms(1) p by simp
qed

lemma kept_all_failing: "list_all (fail_fast ops) exts \<Longrightarrow> kept dead ops exts seen = []"
  by (induction exts arbitrary: seen) auto

lemma no_push_none:
  assumes "find (is_solved ops) (extensions ops s) = None"
    "\<And>dead. kept dead ops (extensions ops s) {} = []"
  shows "depth_first_solve ops s = Some (Inr None) \<and> breadth_first_solve ops s = Some (Inr None)"
  using run_dfs_result [OF run_no_push [OF assms(1) assms(2)]]
        run_bfs_result [OF run_no_push [OF assms(1) assms(2)]] by simp

text \<open>
  Claim C4. \<^verbatim>\<open>is_solved()\<close> is applied to generated extensions only: an initial state
  with no extensions gives \<^verbatim>\<open>None\<close> from both entry points, whether it is solved or not,
  and a returned node always wraps an element of \<^verbatim>\<open>extensions()\<close> of some state reachable
  from the initial one.
\<close>

theorem initial_state_not_checked:
  "(extensions ops s = [] \<longrightarrow>
      depth_first_solve ops s = Some (Inr None) \<and> breadth_first_solve ops s = Some (Inr None))
   \<and> (depth_first_solve ops s = Some (Inr (Some n)) \<or> breadth_first_solve ops s = Some (Inr (Some n))
        \<longrightarrow> (\<exists>t\<in>reachable ops s. \<exists>e\<in>set (extensions ops t). puzzle n = Some e))"
proof (intro conjI impI)
  assume e: "extensions ops s = []"
  show "depth_first_solve ops s = Some (Inr None)" "breadth_first_solve ops s = Some (Inr None)"
    using no_push_none [of ops s] e by simp_all
next
  assume "depth_first_solve ops s = Some (Inr (Some n)) \<or> breadth_first_solve ops s = Some (Inr (Some n))"
  from found_first [OF this] obtain e t pre post where
    "n = node_of e" "t \<in> reachable ops s" "extensions ops t = pre @ e # post" by blast
  then show "\<exists>t\<in>reachable ops s. \<exists>e\<in>set (extensions ops t). puzzle n = Some e"
    by (intro bexI [of _ t] bexI [of _ e]) simp_all
qed

lemma counter_presolved:
  "extensions counter 5 = [] \<and> is_solved counter 5" by (simp add: counter_def)

theorem initial_state_not_checked_witness:
  "extensions counter 5 = [] \<and> is_solved counter 5
   \<and> depth_first_solve counter 5 = Some (Inr None) \<and> breadth_first_solve counter 5 = Some (Inr None)
   \<and> (\<exists>t\<in>reachable counter 0. \<exists>e\<in>set (extensions counter t).
          puzzle (PuzzleNode (Some 5) [] None) = Some e)"
  using initial_state_not_checked [of counter 5 "PuzzleNode (Some 5) [] None"]
        initial_state_not_checked [of counter 0 "PuzzleNode (Some 5) [] None"]
        counter_presolved counter_dfs
  by simp

text \<open>
  Claim C5 (termination). When the set of states reachable from \<open>s\<close> through
  \<^verbatim>\<open>extensions()\<close> is finite, both entry points return (a node or \<^verbatim>\<open>None\<close>). The visited
  set bounds the number of states ever put on the work list, so no hypothesis on cycles is
  needed: the number of canonical strings not yet visited plus the length of the work list
  falls by one at every iteration of the \<^verbatim>\<open>while\<close> loop.
\<close>

theorem search_terminates:
  assumes "finite (reachable ops s)"
  shows "(\<exists>r. depth_first_solve ops s = Some (Inr r)) \<and> (\<exists>r. breadth_first_solve ops s = Some (Inr r))"
proof -
  have fin: "finite (str ops ` reachable ops s)" using assms by simp
  have sub: "set [s] \<subseteq> reachable ops s" using reachable_refl by simp
  from run_total [OF fin sub] obtain r where "run Lifo (\<lambda>_. False) ops {} [s] r" by blast
  from run_dfs_result [OF this] have 1: "\<exists>r. depth_first_solve ops s = Some (Inr r)" by blast
  from run_total [OF fin sub] obtain r where
    "run Fifo (\<lambda>e. extensions ops e = []) ops {} [s] r" by blast
  from run_bfs_result [OF this] have "\<exists>r. breadth_first_solve ops s = Some (Inr r)" by blast
  with 1 show ?thesis by simp
qed

lemma counter_chain_bound: "ext_chain counter s ts \<Longrightarrow> s \<le> 5 \<Longrightarrow> last (s # ts) \<le> 5"
proof (induction ts arbitrary: s)
  case Nil
  then show ?case by simp
next
  case (Cons t ts)
  from Cons.prems have "t \<le> 5" "ext_chain counter t ts"
    by (auto simp: counter_def split: if_splits)
  from Cons.IH [OF this(2) this(1)] show ?case by simp
qed

lemma counter_finite: "finite (reachable counter 0)"
proof -
  have "reachable counter 0 \<subseteq> {..5}"
  proof
    fix t assume "t \<in> reachable counter 0"
    then obtain ts where "ext_chain counter 0 ts" "last (0 # ts) = t"
      unfolding reachable_def by blast
    then show "t \<in> {..5}" using counter_chain_bound [of 0 ts] by simp
  qed
  then show ?thesis using finite_subset by blast
qed

theorem search_terminates_witness:
  "finite (reachable counter 0)
   \<and> (\<exists>r. depth_first_solve counter 0 = Some (Inr r))
   \<and> (\<exists>r. breadth_first_solve counter 0 = Some (Inr r))"
  using search_terminates [OF counter_finite] counter_finite by simp

lemma find_first_split:
  "P e \<Longrightarrow> list_all (\<lambda>x. \<not> P x) pre \<Longrightarrow> find P (pre @ e # post) = Some e"
  by (induction pre) simp_all

text \<open>
  Claim C8. A returned node has no children and no parent, and wraps the first solved
  element, in list order, of \<^verbatim>\<open>extensions()\<close> of a reachable state. The return is
  immediate: when the popped node's puzzle has a solved extension \<open>e\<close> with no solved
  extension before it, the loop returns the node of \<open>e\<close> whatever the later extensions
  \<open>post\<close>, the visited set and the rest of the work list are.
\<close>

theorem first_solved_extension_wins:
  "(depth_first_solve ops s = Some (Inr (Some n)) \<or> breadth_first_solve ops s = Some (Inr (Some n))
      \<longrightarrow> children n = [] \<and> parent n = None
          \<and> (\<exists>t\<in>reachable ops s. \<exists>e pre post. puzzle n = Some e \<and> extensions ops t = pre @ e # post
                \<and> is_solved ops e \<and> list_all (\<lambda>x. \<not> is_solved ops x) pre))
   \<and> (new_puzzle \<noteq> [] \<and> extensions ops p = pre @ e # post \<and> is_solved ops e
        \<and> list_all (\<lambda>x. \<not> is_solved ops x) pre
      \<longrightarrow> (puzzle (last new_puzzle) = Some p
             \<longrightarrow> dfs_while ops seen new_puzzle = Some (Inr (Some (PuzzleNode (Some e) [] None))))
          \<and> (puzzle (hd new_puzzle) = Some p
             \<longrightarrow> bfs_while ops seen new_puzzle = Some (Inr (Some (PuzzleNode (Some e) [] None)))))"
proof (intro conjI impI)
  assume "depth_first_solve ops s = Some (Inr (Some n)) \<or> breadth_first_solve ops s = Some (Inr (Some n))"
  from found_first [OF this] obtain e t pre post where
    h: "n = node_of e" "t \<in> reachable ops s" "extensions ops t = pre @ e # post" "is_solved ops e"
       "\<forall>x\<in>set pre. \<not> is_solved ops x"
    by blast
  show "children n = []" "parent n = None" using h(1) by (simp_all add: node_of_def)
  have "puzzle n = Some e \<and> extensions ops t = pre @ e # post
                \<and> is_solved ops e \<and> list_all (\<lambda>x. \<not> is_solved ops x) pre"
    using h by (simp add: list_all_iff)
  then show "\<exists>t\<in>reachable ops s. \<exists>e pre post. puzzle n = Some e \<and> extensions ops t = pre @ e # post
                \<and> is_solved ops e \<and> list_all (\<lambda>x. \<not> is_solved ops x) pre"
    using h(2) by blast
next
  assume a: "new_puzzle \<noteq> [] \<and> extensions ops p = pre @ e # post \<and> is_solved ops e
        \<and> list_all (\<lambda>x. \<not> is_solved ops x) pre"
  then have f: "find (is_solved ops) (extensions ops p) = Some e"
    by (simp add: find_first_split)
  {
    assume "puzzle (last new_puzzle) = Some p"
    then show "dfs_while ops seen new_puzzle = Some (Inr (Some (PuzzleNode (Some e) [] None)))"
      using a f by (subst dfs_while.simps) (simp add: dfs_for_char node_of_def)
  }
  {
    assume "puzzle (hd new_puzzle) = Some p"
    then show "bfs_while ops seen new_puzzle = Some (Inr (Some (PuzzleNode (Some e) [] None)))"
      using a f by (subst bfs_while.simps) (simp add: bfs_for_char node_of_def)
  }
qed

lemma siblings_facts:
  "extensions siblings 0 = [1] @ 2 # [3] \<and> extensions siblings 1 = [4]
   \<and> \<not> is_solved siblings 1 \<and> is_solved siblings 2 \<and> is_solved siblings 3 \<and> is_solved siblings 4
   \<and> list_all (\<lambda>x. \<not> is_solved siblings x) [1]"
  by (simp add: siblings_def)

lemma siblings_search:
  "depth_first_solve siblings 0 = Some (Inr (Some (PuzzleNode (Some 2) [] None)))
   \<and> breadth_first_solve siblings 0 = Some (Inr (Some (PuzzleNode (Some 2) [] None)))"
  by code_simp

theorem first_solved_extension_wins_witness:
  "extensions siblings 0 = [1] @ 2 # [3] \<and> extensions siblings 1 = [4]
   \<and> \<not> is_solved siblings 1 \<and> is_solved siblings 2 \<and> is_solved siblings 3 \<and> is_solved siblings 4
   \<and> depth_first_solve siblings 0 = Some (Inr (Some (PuzzleNode (Some 2) [] None)))
   \<and> breadth_first_solve siblings 0 = Some (Inr (Some (PuzzleNode (Some 2) [] None)))
   \<and> (\<exists>t\<in>reachable siblings 0. \<exists>e pre post. Some 2 = Some e \<and> extensions siblings t = pre @ e # post
                \<and> is_solved siblings e \<and> list_all (\<lambda>x. \<not> is_solved siblings x) pre)
   \<and> dfs_while siblings {''i'', ''iiiii''} [PuzzleNode (Some 1) [] None, PuzzleNode (Some 0) [] None]
        = Some (Inr (Some (PuzzleNode (Some 2) [] None)))
   \<and> bfs_while siblings {''i'', ''iiiii''} [PuzzleNode (Some 0) [] None, PuzzleNode (Some 1) [] None]
        = Some (Inr (Some (PuzzleNode (Some 2) [] None)))"
  using first_solved_extension_wins [of siblings 0 "PuzzleNode (Some 2) [] None"
          "[PuzzleNode (Some 1) [] None, PuzzleNode (Some 0) [] None]" 0 "[1]" 2 "[3]"
          "{''i'', ''iiiii''}"]
        first_solved_extension_wins [of siblings 0 "PuzzleNode (Some 2) [] None"
          "[PuzzleNode (Some 0) [] None, PuzzleNode (Some 1) [] None]" 0 "[1]" 2 "[3]"
          "{''i'', ''iiiii''}"]
        siblings_search siblings_facts
  by simp

lemma dfs_never_raises: "depth_first_solve ops s \<noteq> Some (Inl err)"
  using dfs_result [of ops s "Inl err"] by auto

lemma bfs_never_raises: "breadth_first_solve ops s \<noteq> Some (Inl err)"
  using bfs_result [of ops s "Inl err"] by auto

lemma find_none_unsolved: "list_all (\<lambda>e. P e \<and> \<not> Q e) xs \<Longrightarrow> find Q xs = None"
  by (induction xs) simp_all

text \<open>
  Claim C7. Neither entry point raises: a run that ends without a solution returns
  \<^verbatim>\<open>None\<close>. In particular, for a state type that keeps the contract of \<^verbatim>\<open>fail_fast()\<close> (a
  state that reports \<^verbatim>\<open>fail_fast()\<close> true cannot be completed, so it is not solved), when
  every element of \<^verbatim>\<open>extensions()\<close> of the initial state reports \<^verbatim>\<open>fail_fast()\<close> true, both
  entry points return \<^verbatim>\<open>None\<close>, however many extensions the initial state has.
\<close>

theorem no_solution_is_None:
  "depth_first_solve ops s \<noteq> Some (Inl err) \<and> breadth_first_solve ops s \<noteq> Some (Inl err)
   \<and> ((\<forall>e. fail_fast ops e \<longrightarrow> \<not> is_solved ops e)
        \<and> list_all (fail_fast ops) (extensions ops s) \<longrightarrow>
        depth_first_solve ops s = Some (Inr None) \<and> breadth_first_solve ops s = Some (Inr None))"
proof (intro conjI impI)
  show "depth_first_solve ops s \<noteq> Some (Inl err)" by (rule dfs_never_raises)
  show "breadth_first_solve ops s \<noteq> Some (Inl err)" by (rule bfs_never_raises)
next
  assume a: "(\<forall>e. fail_fast ops e \<longrightarrow> \<not> is_solved ops e)
               \<and> list_all (fail_fast ops) (extensions ops s)"
  then have ff: "list_all (fail_fast ops) (extensions ops s)" by simp
  then have k: "\<And>dead. kept dead ops (extensions ops s) {} = []" by (rule kept_all_failing)
  have "list_all (\<lambda>e. fail_fast ops e \<and> \<not> is_solved ops e) (extensions ops s)"
    using a by (simp add: list_all_iff)
  then have f: "find (is_solved ops) (extensions ops s) = None" by (rule find_none_unsolved)
  show "depth_first_solve ops s = Some (Inr None)" "breadth_first_solve ops s = Some (Inr None)"
    using no_push_none [OF f k] by simp_all
qed

lemma doomed_contract: "\<forall>e. fail_fast doomed e \<longrightarrow> \<not> is_solved doomed e"
  by (simp add: doomed_def)

lemma doomed_extensions:
  "(\<forall>e. \<not> is_solved doomed e) \<and> extensions doomed 0 = [1]
   \<and> list_all (fail_fast doomed) (extensions doomed 0)"
  by (simp add: doomed_def)

theorem no_solution_is_None_witness:
  "(\<forall>e. \<not> is_solved doomed e) \<and> extensions doomed 0 = [1]
   \<and> list_all (fail_fast doomed) (extensions doomed 0)
   \<and> depth_first_solve doomed 0 = Some (Inr None) \<and> breadth_first_solve doomed 0 = Some (Inr None)"
proof -
  have r: "depth_first_solve doomed 0 = Some (Inr None) \<and> breadth_first_solve doomed 0 = Some (Inr None)"
    using no_solution_is_None [of doomed 0 AttributeError] doomed_contract doomed_extensions
    by blast
  show ?thesis using doomed_extensions r by blast
qed

text \<open>
  Claim C3. The skip rule of the two \<^verbatim>\<open>for\<close> loops is not the same: an extension that is
  not solved, does not fail fast, is not yet visited and has no extensions of its own is
  skipped by \<^verbatim>\<open>breadth_first_solve\<close> (line 58 calls \<^verbatim>\<open>ext.extensions()\<close>), and is added to the
  visited set and the work list by \<^verbatim>\<open>depth_first_solve\<close> (line 32 compares the method
  \<^verbatim>\<open>ext.extensions\<close> itself with \<^verbatim>\<open>[]\<close>).
\<close>

theorem dfs_enqueues_dead_end:
  "\<not> is_solved dead_end 1 \<and> \<not> fail_fast dead_end 1 \<and> extensions dead_end 1 = []
   \<and> dfs_for dead_end (extensions dead_end 0) {} [] = Inr ({str dead_end 1}, [PuzzleNode (Some 1) [] None])
   \<and> bfs_for dead_end (extensions dead_end 0) {} [] = Inr ({}, [])"
  by (simp add: dead_end_def bound_method_eq_list_def PuzzleNode_init_def)

lemma str_endless: "str endless n = replicate n CHR ''i''"
  by (simp add: endless_def)

lemma endless_step:
  assumes "even m" "2 \<le> m" "\<forall>x\<in>seen. length x \<le> m"
  shows "kept (\<lambda>_. False) endless (extensions endless m) seen = [m + 2]"
proof -
  have "m \<noteq> 0" "m \<noteq> 1" "m \<noteq> 3" using assms by auto
  then have e: "extensions endless m = [m + 2]" by (simp add: endless_def)
  have "str endless (m + 2) \<notin> seen"
  proof
    assume "str endless (m + 2) \<in> seen"
    then have "length (str endless (m + 2)) \<le> m" using assms(3) by blast
    then show False by (simp add: str_endless)
  qed
  moreover have "\<not> fail_fast endless (m + 2)" by (simp add: endless_def)
  ultimately show ?thesis using e by simp
qed

lemma endless_start: "kept (\<lambda>_. False) endless (extensions endless 0) {} = [1, 2]"
  by (simp add: endless_def numeral_2_eq_2)

lemma endless_never_returns:
  "run Lifo (\<lambda>_. False) endless seen ps r \<Longrightarrow> endless_inv seen ps \<Longrightarrow> False"
proof (induction rule: run.induct)
  case (run_nil seen)
  then show ?case by (simp add: endless_inv_def)
next
  case (run_found ps e seen)
  from run_found.prems show ?case unfolding endless_inv_def
  proof (elim disjE conjE exE)
    assume "ps = [0]"
    then show False using run_found.hyps by (simp add: endless_def)
  next
    fix m assume m: "ps = [1, m]" "even m" "2 \<le> m"
    then have "m \<noteq> 0" "m \<noteq> 1" "m \<noteq> 3" by auto
    then show False using run_found.hyps m by (simp add: endless_def)
  qed
next
  case (run_step ps seen r)
  let ?K = "kept (\<lambda>_. False) endless (extensions endless (pick Lifo ps)) seen"
  from run_step.prems have "endless_inv (seen \<union> str endless ` set ?K) (rest Lifo ps @ ?K)"
    unfolding endless_inv_def
  proof (elim disjE conjE exE)
    assume a: "ps = [0]" "seen = {}"
    have "\<forall>x\<in>str endless ` {1, 2}. length x \<le> 2" by (simp add: str_endless)
    then have "rest Lifo ps @ ?K = [1, 2] \<and> even (2::nat) \<and> (2::nat) \<le> 2
                 \<and> (\<forall>x\<in>seen \<union> str endless ` set ?K. length x \<le> 2)"
      using a endless_start by simp
    then show "(rest Lifo ps @ ?K = [0] \<and> seen \<union> str endless ` set ?K = {}) \<or>
        (\<exists>m. rest Lifo ps @ ?K = [1, m] \<and> even m \<and> 2 \<le> m \<and>
             (\<forall>x\<in>seen \<union> str endless ` set ?K. length x \<le> m))"
      by blast
  next
    fix m assume m: "ps = [1, m]" "even m" "2 \<le> m" "\<forall>x\<in>seen. length x \<le> m"
    note k = endless_step [OF m(2,3,4)]
    have "\<forall>x\<in>seen \<union> {str endless (m + 2)}. length x \<le> m + 2"
      using m(4) by (auto simp: str_endless)
    then have "rest Lifo ps @ ?K = [1, m + 2] \<and> even (m + 2) \<and> 2 \<le> m + 2
                 \<and> (\<forall>x\<in>seen \<union> str endless ` set ?K. length x \<le> m + 2)"
      using m k by simp
    then show "(rest Lifo ps @ ?K = [0] \<and> seen \<union> str endless ` set ?K = {}) \<or>
        (\<exists>m. rest Lifo ps @ ?K = [1, m] \<and> even m \<and> 2 \<le> m \<and>
             (\<forall>x\<in>seen \<union> str endless ` set ?K. length x \<le> m))"
      by blast
  qed
  then show ?case by (rule run_step.IH)
qed

lemma endless_dfs_diverges: "depth_first_solve endless 0 = None"
proof (cases "depth_first_solve endless 0")
  case None
  then show ?thesis .
next
  case (Some y)
  from dfs_result [OF this] obtain r where "run Lifo (\<lambda>_. False) endless {} [0] r" by blast
  then have False using endless_never_returns [of "{}" "[0]" r] by (simp add: endless_inv_def)
  then show ?thesis ..
qed

lemma within_reachable: "within ops s j \<subseteq> reachable ops s"
  unfolding within_def reachable_def by blast

lemma within_mono: "i \<le> j \<Longrightarrow> within ops s i \<subseteq> within ops s j"
  unfolding within_def by fastforce

lemma within_0: "s \<in> within ops s 0"
  unfolding within_def using ext_chain.simps(1) [of ops s] by force

lemma within_step:
  assumes "t \<in> within ops s j" "e \<in> set (extensions ops t)"
  shows "e \<in> within ops s (Suc j)"
proof -
  from assms(1) obtain ts where ts: "ext_chain ops s ts" "length ts \<le> j" "last (s # ts) = t"
    unfolding within_def by blast
  have "ext_chain ops s (ts @ [e])"
    using ts assms(2) by (simp only: ext_chain_append) simp
  moreover have "last (s # ts @ [e]) = e" "length (ts @ [e]) \<le> Suc j" using ts(2) by simp_all
  ultimately show ?thesis unfolding within_def by blast
qed

lemma within_Suc_subset:
  "within ops s (Suc j) \<subseteq> within ops s j \<union> (\<Union>t\<in>within ops s j. set (extensions ops t))"
proof
  fix e assume "e \<in> within ops s (Suc j)"
  then obtain ts where ts: "ext_chain ops s ts" "length ts \<le> Suc j" "last (s # ts) = e"
    unfolding within_def by blast
  show "e \<in> within ops s j \<union> (\<Union>t\<in>within ops s j. set (extensions ops t))"
  proof (cases "length ts \<le> j")
    case True
    then show ?thesis using ts unfolding within_def by blast
  next
    case False
    then have "ts \<noteq> []" by auto
    then obtain us where us: "ts = us @ [e]" using ts(3) by (metis last_ConsR snoc_eq_iff_butlast)
    then have c: "ext_chain ops s us" "e \<in> set (extensions ops (last (s # us)))"
      using ts(1) by (simp_all only: ext_chain_append) simp_all
    have "length us \<le> j" using us ts(2) by simp
    then have "last (s # us) \<in> within ops s j" using c(1) unfolding within_def by blast
    then show ?thesis using c(2) by blast
  qed
qed

lemma within_finite: "finite (within ops s j)"
proof (induction j)
  case 0
  have "within ops s 0 \<subseteq> {s}" unfolding within_def by auto
  then show ?case using finite_subset by blast
next
  case (Suc j)
  have "finite (within ops s j \<union> (\<Union>t\<in>within ops s j. set (extensions ops t)))"
    using Suc by simp
  then show ?case using within_Suc_subset [of ops s j] finite_subset by blast
qed

lemma good_chain_length: "good_chain ops g us \<Longrightarrow> 1 \<le> length us"
  unfolding good_chain_def by (cases us) simp_all

lemma bfs_inv_step:
  assumes inj: "inj_on (str ops) (reachable ops s)"
    and inv: "bfs_inv ops s k seen ps"
  shows "ps \<noteq> []" "set ps \<subseteq> within ops s k"
    "find (is_solved ops) (extensions ops (hd ps)) = None \<Longrightarrow>
       bfs_inv ops s k
         (seen \<union> str ops ` set (kept (\<lambda>e. extensions ops e = []) ops (extensions ops (hd ps)) seen))
         (tl ps @ kept (\<lambda>e. extensions ops e = []) ops (extensions ops (hd ps)) seen)
       \<and> set (tl ps @ kept (\<lambda>e. extensions ops e = []) ops (extensions ops (hd ps)) seen)
            \<subseteq> within ops s k"
proof -
  from inv obtain j0 A0 B0 g0 us0 where
    pend: "pending ops s seen ps" and
    s0: "ps = A0 @ B0" "set A0 \<subseteq> within ops s j0" "set B0 \<subseteq> within ops s (Suc j0)"
        "good_chain ops g0 us0"
        "(g0 \<in> set A0 \<and> j0 + length us0 \<le> k) \<or> (g0 \<in> set B0 \<and> Suc j0 + length us0 \<le> k)"
    unfolding bfs_inv_def by blast
  have "\<exists>j A B. A \<noteq> [] \<and> ps = A @ B \<and> set A \<subseteq> within ops s j \<and> set B \<subseteq> within ops s (Suc j)
          \<and> ((g0 \<in> set A \<and> j + length us0 \<le> k) \<or> (g0 \<in> set B \<and> Suc j + length us0 \<le> k))"
  proof (cases "A0 = []")
    case False
    then show ?thesis using s0 by blast
  next
    case True
    then have "g0 \<in> set B0" "Suc j0 + length us0 \<le> k" using s0(5) by auto
    then have "B0 \<noteq> [] \<and> ps = B0 @ [] \<and> set B0 \<subseteq> within ops s (Suc j0)
          \<and> set [] \<subseteq> within ops s (Suc (Suc j0))
          \<and> ((g0 \<in> set B0 \<and> Suc j0 + length us0 \<le> k) \<or> (g0 \<in> set [] \<and> Suc (Suc j0) + length us0 \<le> k))"
      using s0 True by auto
    then show ?thesis by blast
  qed
  then obtain j A B where
    s1: "A \<noteq> []" "ps = A @ B" "set A \<subseteq> within ops s j" "set B \<subseteq> within ops s (Suc j)"
        "(g0 \<in> set A \<and> j + length us0 \<le> k) \<or> (g0 \<in> set B \<and> Suc j + length us0 \<le> k)"
    by blast
  have len: "1 \<le> length us0" using good_chain_length [OF s0(4)] .
  have jk: "Suc j \<le> k" "j + length us0 \<le> k" using s1(5) len by auto
  show ne: "ps \<noteq> []" using s1 by simp
  have wj: "within ops s j \<subseteq> within ops s (Suc j)" "within ops s (Suc j) \<subseteq> within ops s k"
    using within_mono [of j "Suc j" ops s] within_mono [OF jk(1), of ops s] by auto
  show subk: "set ps \<subseteq> within ops s k" using s1 wj by auto
  assume none: "find (is_solved ops) (extensions ops (hd ps)) = None"
  let ?dead = "\<lambda>e. extensions ops e = []"
  let ?p = "hd ps"
  let ?K = "kept ?dead ops (extensions ops ?p) seen"
  let ?seen = "seen \<union> str ops ` set ?K"
  let ?ps = "tl ps @ ?K"
  have hdA: "?p = hd A" "tl ps = tl A @ B" "A = hd A # tl A" using s1(1,2) by simp_all
  have pj: "?p \<in> within ops s j" using hdA s1(1,3) by (metis list.set_sel(1) subsetD)
  have pR: "?p \<in> reachable ops s" using pj within_reachable [of ops s j] by auto
  have psR: "set ps \<subseteq> reachable ops s" using subk within_reachable [of ops s k] by auto
  have KS: "set ?K \<subseteq> within ops s (Suc j)"
    using kept_subset [of ?dead ops "extensions ops ?p" seen] within_step [OF pj] by blast
  have tlA: "set (tl A) \<subseteq> within ops s j" using s1(3) hdA(3) by (metis set_subset_Cons subset_trans)
  have BK: "set (B @ ?K) \<subseteq> within ops s (Suc j)" using s1(4) KS by simp
  have split: "?ps = tl A @ (B @ ?K)" using hdA(2) by simp
  have pend': "pending ops s ?seen ?ps"
    using pending_step [OF inj _ ne psR _ pend, of ?dead Fifo] none by simp
  have good': "\<exists>g us. good_chain ops g us \<and>
           ((g \<in> set (tl A) \<and> j + length us \<le> k) \<or> (g \<in> set (B @ ?K) \<and> Suc j + length us \<le> k))"
  proof (cases "g0 = ?p")
    case True
    then have "good_chain ops ?p us0" using s0(4) by simp
    from good_child_seen [where seen = seen and dead = ?dead, OF _ this none] obtain t us where
      t: "t \<in> set (extensions ops ?p)" "good_chain ops t us" "length us < length us0"
         "str ops t \<in> ?seen" by blast
    have "t \<in> reachable ops s" using reachable_step [OF pR t(1)] .
    from pending_descent [OF pend' this t(2) t(4)] obtain v vs where
      v: "v \<in> set ?ps" "good_chain ops v vs" "length vs \<le> length us" by blast
    have "Suc j + length vs \<le> k" using v(3) t(3) jk(2) by simp
    then have "(v \<in> set (tl A) \<and> j + length vs \<le> k) \<or> (v \<in> set (B @ ?K) \<and> Suc j + length vs \<le> k)"
      using v(1) split by auto
    then show ?thesis using v(2) by blast
  next
    case False
    then have "(g0 \<in> set (tl A) \<and> j + length us0 \<le> k) \<or> (g0 \<in> set (B @ ?K) \<and> Suc j + length us0 \<le> k)"
      using s1(5) hdA(1) hdA(3) by (metis Un_iff set_ConsD set_append)
    then show ?thesis using s0(4) by blast
  qed
  have "bfs_inv ops s k ?seen ?ps"
    unfolding bfs_inv_def using pend' split tlA BK good' by blast
  moreover have "set ?ps \<subseteq> within ops s k" using split tlA BK wj by auto
  ultimately show "bfs_inv ops s k ?seen ?ps \<and> set ?ps \<subseteq> within ops s k" by simp
qed

lemma bfs_finds:
  assumes inj: "inj_on (str ops) (reachable ops s)"
  shows "bfs_inv ops s k seen ps \<Longrightarrow> \<exists>e. run Fifo (\<lambda>e. extensions ops e = []) ops seen ps (Some e)"
proof (induction "card (str ops ` within ops s k - seen) + length ps"
       arbitrary: seen ps rule: less_induct)
  case less
  let ?R = "str ops ` within ops s k"
  let ?dead = "\<lambda>e. extensions ops e = []"
  have fin: "finite ?R" using within_finite [of ops s k] by simp
  note st = bfs_inv_step [OF inj less.prems]
  have ne: "ps \<noteq> []" using st(1) .
  have pk: "pick Fifo ps = hd ps" "rest Fifo ps = tl ps" by simp_all
  show ?case
  proof (cases "find (is_solved ops) (extensions ops (hd ps))")
    case (Some e)
    then show ?thesis using run_found [OF ne, of ops Fifo e ?dead seen] by auto
  next
    case None
    let ?K = "kept ?dead ops (extensions ops (hd ps)) seen"
    let ?seen = "seen \<union> str ops ` set ?K"
    let ?ps = "tl ps @ ?K"
    from st(3) [OF None] have inv': "bfs_inv ops s k ?seen ?ps" and sub: "set ?ps \<subseteq> within ops s k"
      by simp_all
    have KR: "str ops ` set ?K \<subseteq> ?R - seen"
      using sub kept_fresh [of ops ?dead "extensions ops (hd ps)" seen] by auto
    have cK: "card (str ops ` set ?K) = length ?K"
      using kept_distinct [of ops ?dead "extensions ops (hd ps)" seen]
        distinct_card [of "map (str ops) ?K"] by simp
    have "?R - ?seen = (?R - seen) - str ops ` set ?K" by blast
    then have "card (?R - ?seen) = card (?R - seen) - length ?K"
      using card_Diff_subset [of "str ops ` set ?K" "?R - seen"] KR cK by simp
    moreover have "length ?K \<le> card (?R - seen)"
      using card_mono [OF _ KR] fin cK by simp
    moreover have "Suc (length (tl ps)) = length ps" using ne by simp
    ultimately have "card (?R - ?seen) + length ?ps < card (?R - seen) + length ps"
      by simp
    from less.hyps [OF this inv'] obtain e where "run Fifo ?dead ops ?seen ?ps (Some e)" by blast
    then show ?thesis using run_step [OF ne, of ops Fifo ?dead seen "Some e"] None pk by auto
  qed
qed

lemma bfs_complete:
  assumes "inj_on (str ops) (reachable ops s)" "good_chain ops s ts"
  shows "\<exists>n. breadth_first_solve ops s = Some (Inr (Some n))"
proof -
  have "pending ops s {} [s]" unfolding pending_def by simp
  moreover have "[s] = [s] @ [] \<and> set [s] \<subseteq> within ops s 0 \<and> set [] \<subseteq> within ops s (Suc 0)
     \<and> good_chain ops s ts \<and> ((s \<in> set [s] \<and> 0 + length ts \<le> length ts)
          \<or> (s \<in> set [] \<and> Suc 0 + length ts \<le> length ts))"
    using within_0 [of s ops] assms(2) by simp
  ultimately have "bfs_inv ops s (length ts) {} [s]" unfolding bfs_inv_def by blast
  from bfs_finds [OF assms(1) this] obtain e where
    "run Fifo (\<lambda>e. extensions ops e = []) ops {} [s] (Some e)" by blast
  from run_bfs_result [OF this] show ?thesis by simp
qed

text \<open>
  Claim C2 (completeness), as amended. Let the canonical strings of the states reachable
  from \<open>s\<close> be pairwise different, and let a solved state be the end of a non-empty chain
  of extensions from \<open>s\<close>, no state of which reports \<^verbatim>\<open>fail_fast()\<close> true. Then
  \<^verbatim>\<open>breadth_first_solve(s)\<close> returns a node, and so does \<^verbatim>\<open>depth_first_solve(s)\<close> when the
  set of states reachable from \<open>s\<close> is finite.
\<close>

theorem search_complete:
  assumes "inj_on (str ops) (reachable ops s)" "good_chain ops s ts"
  shows "(\<exists>n. breadth_first_solve ops s = Some (Inr (Some n)))
       \<and> (finite (reachable ops s) \<longrightarrow> (\<exists>n. depth_first_solve ops s = Some (Inr (Some n))))"
proof (intro conjI impI)
  show "\<exists>n. breadth_first_solve ops s = Some (Inr (Some n))"
    using assms by (rule bfs_complete)
next
  assume "finite (reachable ops s)"
  then have fin: "finite (str ops ` reachable ops s)" by simp
  have sub: "set [s] \<subseteq> reachable ops s" using reachable_refl by simp
  from run_total [OF fin sub] obtain r where r: "run Lifo (\<lambda>_. False) ops {} [s] r" by blast
  have "r \<noteq> None" using run_complete [OF assms(1) _ assms(2) r] by simp
  then obtain e where "r = Some e" by auto
  with run_dfs_result [OF r] show "\<exists>n. depth_first_solve ops s = Some (Inr (Some n))" by simp
qed

lemma counter_inj: "inj_on (str counter) (reachable counter 0)"
proof (rule inj_onI)
  fix x y assume "str counter x = str counter y"
  then have "length (replicate x CHR ''i'') = length (replicate y CHR ''i'')"
    by (simp add: counter_def)
  then show "x = y" by simp
qed

lemma counter_good: "good_chain counter 0 [1, 2, 3, 4, 5]"
  by (simp add: good_chain_def counter_def)

theorem search_complete_witness:
  "inj_on (str counter) (reachable counter 0) \<and> good_chain counter 0 [1, 2, 3, 4, 5]
   \<and> finite (reachable counter 0)
   \<and> (\<exists>n. breadth_first_solve counter 0 = Some (Inr (Some n)))
   \<and> (\<exists>n. depth_first_solve counter 0 = Some (Inr (Some n)))"
  using search_complete [OF counter_inj counter_good]
        counter_inj counter_finite counter_good by simp

lemma collide_good: "good_chain collide 0 [2, 3]"
  by (simp add: good_chain_def collide_def)

lemma collide_none:
  "depth_first_solve collide 0 = Some (Inr None) \<and> breadth_first_solve collide 0 = Some (Inr None)"
  by code_simp

lemma endless_good: "good_chain endless 0 [1, 3]"
  by (simp add: good_chain_def endless_def)

theorem search_complete_counterexample:
  "good_chain collide 0 [2, 3]
   \<and> depth_first_solve collide 0 = Some (Inr None) \<and> breadth_first_solve collide 0 = Some (Inr None)
   \<and> good_chain endless 0 [1, 3] \<and> depth_first_solve endless 0 = None"
  using collide_good collide_none endless_good endless_dfs_diverges by simp

lemma dfs_examined_trace:
  "dfs_examined k ops seen (map node_of ps) = map node_of (trace Lifo (\<lambda>_. False) ops k seen ps)"
proof (induction k arbitrary: seen ps)
  case 0
  show ?case by simp
next
  case (Suc k)
  show ?case
  proof (cases "ps = []")
    case True
    then show ?thesis by simp
  next
    case False
    then show ?thesis
      using Suc.IH [of "seen \<union> str ops ` set (kept (\<lambda>_. False) ops (extensions ops (last ps)) seen)"
          "butlast ps @ kept (\<lambda>_. False) ops (extensions ops (last ps)) seen"]
      by (simp add: last_map map_butlast dfs_for_char split: option.splits)
  qed
qed

lemma bfs_examined_trace:
  "bfs_examined k ops seen (map node_of ps) =
     map node_of (trace Fifo (\<lambda>e. extensions ops e = []) ops k seen ps)"
proof (induction k arbitrary: seen ps)
  case 0
  show ?case by simp
next
  case (Suc k)
  show ?case
  proof (cases "ps = []")
    case True
    then show ?thesis by simp
  next
    case False
    then show ?thesis
      using Suc.IH [of "seen \<union> str ops ` set (kept (\<lambda>e. extensions ops e = []) ops (extensions ops (hd ps)) seen)"
          "tl ps @ kept (\<lambda>e. extensions ops e = []) ops (extensions ops (hd ps)) seen"]
      by (simp add: hd_map map_tl bfs_for_char split: option.splits)
  qed
qed

lemma distinct_pick_rest:
  assumes "ps \<noteq> []" "distinct (map f ps)"
  shows "distinct (map f (rest d ps)) \<and> f (pick d ps) \<notin> f ` set (rest d ps)"
proof (cases d)
  case Lifo
  have "ps = butlast ps @ [last ps]" using assms(1) by simp
  then have "distinct (map f (butlast ps @ [last ps]))" using assms(2) by simp
  then show ?thesis using Lifo by auto
next
  case Fifo
  then show ?thesis using assms by (cases ps) auto
qed

lemma trace_distinct:
  "distinct (map (str ops) ps) \<Longrightarrow> str ops ` set ps \<subseteq> seen
     \<Longrightarrow> distinct (map (str ops) (trace d dead ops k seen ps))
         \<and> (\<forall>x\<in>set (trace d dead ops k seen ps). str ops x \<in> str ops ` set ps \<or> str ops x \<notin> seen)"
proof (induction k arbitrary: seen ps)
  case 0
  show ?case by simp
next
  case (Suc k)
  show ?case
  proof (cases "ps = []")
    case True
    then show ?thesis by simp
  next
    case False
    let ?p = "pick d ps"
    show ?thesis
    proof (cases "find (is_solved ops) (extensions ops ?p)")
      case (Some e)
      then show ?thesis using False pick_in [OF False, of d] by simp
    next
      case None
      let ?K = "kept dead ops (extensions ops ?p) seen"
      let ?seen = "seen \<union> str ops ` set ?K"
      let ?ps = "rest d ps @ ?K"
      let ?t = "trace d dead ops k ?seen ?ps"
      have pr: "distinct (map (str ops) (rest d ps))" "str ops ?p \<notin> str ops ` set (rest d ps)"
        using distinct_pick_rest [OF False Suc.prems(1), of d] by simp_all
      have setps: "set ps = insert ?p (set (rest d ps))" using set_pick_rest [OF False] .
      have fresh: "str ops ` set ?K \<inter> seen = {}" using kept_fresh .
      have dK: "distinct (map (str ops) ?K)" using kept_distinct .
      have pseen: "str ops ?p \<in> seen" using Suc.prems(2) setps by auto
      have rseen: "str ops ` set (rest d ps) \<subseteq> seen" using Suc.prems(2) setps by auto
      have d1: "distinct (map (str ops) ?ps)" using pr(1) dK fresh rseen by auto
      have s1: "str ops ` set ?ps \<subseteq> ?seen" using rseen by auto
      from Suc.IH [OF d1 s1] have IH: "distinct (map (str ops) ?t)"
        "\<forall>x\<in>set ?t. str ops x \<in> str ops ` set ?ps \<or> str ops x \<notin> ?seen" by simp_all
      have notin: "str ops ?p \<notin> str ops ` set ?t"
      proof
        assume "str ops ?p \<in> str ops ` set ?t"
        then obtain x where x: "x \<in> set ?t" "str ops x = str ops ?p" by auto
        with IH(2) have "str ops ?p \<in> str ops ` set ?ps \<or> str ops ?p \<notin> ?seen" by metis
        then show False using pseen pr(2) fresh by auto
      qed
      have tr: "trace d dead ops (Suc k) seen ps = ?p # ?t" using False None by simp
      have "\<forall>x\<in>set (?p # ?t). str ops x \<in> str ops ` set ps \<or> str ops x \<notin> seen"
      proof
        fix x assume "x \<in> set (?p # ?t)"
        then consider "x = ?p" | "x \<in> set ?t" by auto
        then show "str ops x \<in> str ops ` set ps \<or> str ops x \<notin> seen"
        proof cases
          case 1
          then show ?thesis using setps by auto
        next
          case 2
          with IH(2) have "str ops x \<in> str ops ` set ?ps \<or> str ops x \<notin> ?seen" by blast
          then show ?thesis using setps fresh by auto
        qed
      qed
      then show ?thesis using tr IH(1) notin by simp
    qed
  qed
qed

lemma trace_tl_distinct: "distinct (map (str ops) (tl (trace d dead ops k {} [s])))"
proof (cases k)
  case 0
  then show ?thesis by simp
next
  case (Suc j)
  have p: "pick d [s] = s" "rest d [s] = []" by (cases d; simp)+
  show ?thesis
  proof (cases "find (is_solved ops) (extensions ops s)")
    case (Some e)
    then show ?thesis using Suc p by simp
  next
    case None
    let ?K = "kept dead ops (extensions ops s) {}"
    have "distinct (map (str ops) (trace d dead ops j (str ops ` set ?K) ?K))"
      using trace_distinct [of ops ?K "str ops ` set ?K" d dead j] kept_distinct [of ops dead]
      by simp
    then show ?thesis using Suc None p by simp
  qed
qed

lemma distinct_node_strings:
  "distinct (map f xs) \<Longrightarrow> distinct (map (\<lambda>n. map_option f (puzzle n)) (map node_of xs))"
  by (induction xs) auto

text \<open>
  Claim C6 (no revisits), as amended. In one run of either entry point the nodes popped
  and expanded after the first one (the initial state) have pairwise different canonical
  strings, for every number \<open>k\<close> of iterations of the \<^verbatim>\<open>while\<close> loop: a canonical string is
  put on the work list at most once.
\<close>

theorem enqueued_strings_examined_once:
  "distinct (map (\<lambda>n. map_option (str ops) (puzzle n))
               (tl (dfs_examined k ops {} [PuzzleNode_init (Some s) None None])))
   \<and> distinct (map (\<lambda>n. map_option (str ops) (puzzle n))
               (tl (bfs_examined k ops {} [PuzzleNode_init (Some s) None None])))"
proof -
  have "distinct (map (\<lambda>n. map_option (str ops) (puzzle n))
               (map node_of (tl (trace d dead ops k {} [s]))))" for d dead
    using trace_tl_distinct [of ops d dead k s] by (rule distinct_node_strings)
  then show ?thesis
    unfolding start_node dfs_examined_trace bfs_examined_trace by (simp add: map_tl)
qed

theorem enqueued_strings_examined_once_witness:
  "distinct (map (\<lambda>n. map_option (str two_cycle) (puzzle n))
               (tl (dfs_examined 4 two_cycle {} [PuzzleNode_init (Some 0) None None])))
   \<and> distinct (map (\<lambda>n. map_option (str two_cycle) (puzzle n))
               (tl (bfs_examined 4 two_cycle {} [PuzzleNode_init (Some 0) None None])))"
  using enqueued_strings_examined_once [of two_cycle 4 0] by simp

theorem initial_state_examined_twice:
  "dfs_examined 3 two_cycle {} [PuzzleNode_init (Some 0) None None]
     = [PuzzleNode (Some 0) [] None, PuzzleNode (Some 1) [] None, PuzzleNode (Some 0) [] None]
   \<and> bfs_examined 3 two_cycle {} [PuzzleNode_init (Some 0) None None]
     = [PuzzleNode (Some 0) [] None, PuzzleNode (Some 1) [] None, PuzzleNode (Some 0) [] None]"
  by code_simp

text \<open>
  Claim C10. \<^verbatim>\<open>SudokuPuzzle.extensions()\<close> returns the empty list when no row of the grid
  holds the empty cell \<^verbatim>\<open>"*"\<close>; when some row does, it raises \<^verbatim>\<open>UnboundLocalError\<close> (line
  169 reads the local \<open>r\<close> before any assignment) and returns nothing.
\<close>

theorem sudoku_extensions_unbound_local:
  "(list_ex (\<lambda>row. ''*'' \<in> set row) (sudoku_symbols self)
      \<longrightarrow> sudoku_extensions root order self = Inl UnboundLocalError)
   \<and> (\<not> list_ex (\<lambda>row. ''*'' \<in> set row) (sudoku_symbols self)
      \<longrightarrow> sudoku_extensions root order self = Inr [])
   \<and> ((\<exists>l. sudoku_extensions root order self = Inr l)
      \<longleftrightarrow> \<not> list_ex (\<lambda>row. ''*'' \<in> set row) (sudoku_symbols self))"
proof -
  have "sudoku_extensions root order self =
          (if list_ex (\<lambda>row. ''*'' \<in> set row) (sudoku_symbols self)
           then Inl UnboundLocalError else Inr [])"
    by (simp add: sudoku_extensions_def read_local_def raising_def Let_def)
  then show ?thesis by simp
qed

theorem sudoku_extensions_unbound_local_witness:
  "list_ex (\<lambda>row. ''*'' \<in> set row) (sudoku_symbols one_empty_cell)
   \<and> sudoku_extensions (\<lambda>_. Inr 2) (\<lambda>_. []) one_empty_cell = Inl UnboundLocalError
   \<and> \<not> list_ex (\<lambda>row. ''*'' \<in> set row) (sudoku_symbols filled_grid)
   \<and> sudoku_extensions (\<lambda>_. Inr 2) (\<lambda>_. []) filled_grid = Inr []"
  using sudoku_extensions_unbound_local [of one_empty_cell "\<lambda>_. Inr 2" "\<lambda>_. []"]
        sudoku_extensions_unbound_local [of filled_grid "\<lambda>_. Inr 2" "\<lambda>_. []"]
  by (simp add: one_empty_cell_def filled_grid_def)

end
